theory Spec2Isabelle
  imports Main "HOL-Library.Word"
begin

section \<open>Common types\<close>

type_synonym byte = "8 word"

text \<open>
  JavaScript exceptions carried as values. \<open>Error\<close> and \<open>TypeError\<close> hold the
  message, \<open>RangeError\<close> is the engine's stack exhaustion, \<open>IOError\<close> holds the
  \<open>code\<close> of a failed file-system call (\<open>ENOENT\<close>, \<open>EIO\<close>, ...).
\<close>

datatype error = Error string | TypeError string | RangeError string | IOError string

section \<open>list.ts: the path filter\<close>

text \<open>
  Modelled from the spec: \<open>stripTrailingSlashes\<close> (./strip-trailing-slashes.js is
  not among the sources). The spec says only that trailing separators are stripped.
\<close>

definition stripTrailingSlashes :: "string \<Rightarrow> string" where
  "stripTrailingSlashes str = rev (dropWhile (\<lambda>c. c = CHR ''/'') (rev str))"

text \<open>
  \<open>parse(file).root\<close> and \<open>dirname\<close> are the platform's \<open>path\<close> module, in its
  POSIX flavour. The root of a path is \<open>/\<close> when the path starts with a slash and
  the empty string otherwise.
\<close>

definition parse_root :: "string \<Rightarrow> string" where
  "parse_root p = (case p of [] \<Rightarrow> '''' | c # _ \<Rightarrow> if c = CHR ''/'' then ''/'' else '''')"

text \<open>
  \<open>dirname\<close> scans the path from its last character down to index 1 for the
  first slash that has a non-slash character to its right:
  \<^verbatim>\<open>
    for (let i = path.length - 1; i >= 1; --i) {
      if (path.charCodeAt(i) === 47) { if (!matchedSlash) { end = i; break } }
      else matchedSlash = false
    }
    if (end === -1) return hasRoot ? '/' : '.'
    if (hasRoot && end === 1) return '//'
    return path.slice(0, end)
  \<close>
\<close>

fun dirname_scan :: "string \<Rightarrow> nat \<Rightarrow> bool \<Rightarrow> nat option" where
  "dirname_scan p 0 matchedSlash = None"
| "dirname_scan p (Suc i) matchedSlash =
     (if p ! Suc i = CHR ''/''
      then (if \<not> matchedSlash then Some (Suc i) else dirname_scan p i matchedSlash)
      else dirname_scan p i False)"

definition dirname :: "string \<Rightarrow> string" where
  "dirname p =
     (if p = [] then ''.''
      else let hasRoot = (hd p = CHR ''/'') in
        case dirname_scan p (length p - 1) True of
          None \<Rightarrow> if hasRoot then ''/'' else ''.''
        | Some e \<Rightarrow> if hasRoot \<and> e = 1 then ''//'' else take e p)"

text \<open>
  The filter's \<open>Map<string, boolean>\<close>: the requested paths, stripped, each marked
  true; \<open>mapHas\<close> adds a memo entry for every path it visits.
\<close>

type_synonym pathmap = "string \<rightharpoonup> bool"

definition requested_map :: "string list \<Rightarrow> pathmap" where
  "requested_map files = map_of (map (\<lambda>f. (stripTrailingSlashes f, True)) files)"

text \<open>
  Measure for the upward walk: the two fixed points of \<open>dirname\<close> are at the
  bottom, every other path weighs its length plus one.
\<close>

definition path_weight :: "string \<Rightarrow> nat" where
  "path_weight p = (if p = ''.'' \<or> p = ''/'' then 0 else length p + 1)"

lemma dirname_scan_bound:
  "dirname_scan p i ms = Some e \<Longrightarrow> 1 \<le> e \<and> e \<le> i"
  by (induction p i ms rule: dirname_scan.induct) (auto split: if_splits)

lemma dirname_scan_bound_True:
  "dirname_scan p i True = Some e \<Longrightarrow> 1 \<le> e \<and> e < i"
proof (cases i)
  case 0
  assume "dirname_scan p i True = Some e"
  with 0 show ?thesis by simp
next
  case (Suc j)
  assume a: "dirname_scan p i True = Some e"
  show ?thesis
  proof (cases "p ! Suc j = CHR ''/''")
    case True
    with a Suc have "dirname_scan p j True = Some e" by simp
    from dirname_scan_bound [OF this] Suc show ?thesis by simp
  next
    case False
    with a Suc have "dirname_scan p j False = Some e" by simp
    from dirname_scan_bound [OF this] Suc show ?thesis by simp
  qed
qed

lemma dirname_weight:
  assumes "dirname p \<noteq> p"
  shows "path_weight (dirname p) < path_weight p"
proof (cases "p = []")
  case True
  then show ?thesis by (simp add: dirname_def path_weight_def)
next
  case False
  have notfix: "p \<noteq> ''.''" "p \<noteq> ''/''"
    using assms by (auto simp: dirname_def)
  then have wp: "path_weight p = length p + 1"
    by (simp add: path_weight_def)
  show ?thesis
  proof (cases "dirname_scan p (length p - 1) True")
    case None
    with False have "dirname p = ''/'' \<or> dirname p = ''.''"
      by (simp add: dirname_def Let_def)
    then have "path_weight (dirname p) = 0"
      by (auto simp: path_weight_def)
    with wp show ?thesis by simp
  next
    case (Some e)
    from dirname_scan_bound_True [OF Some] have e: "1 \<le> e" "e + 2 \<le> length p"
      by auto
    from Some False have "dirname p = ''//'' \<or> dirname p = take e p"
      by (simp add: dirname_def Let_def)
    then show ?thesis
    proof
      assume "dirname p = ''//''"
      then have "path_weight (dirname p) = 3" by (simp add: path_weight_def)
      with wp e show ?thesis by simp
    next
      assume "dirname p = take e p"
      then have "path_weight (dirname p) \<le> e + 1"
        using e by (simp add: path_weight_def)
      with wp e show ?thesis by simp
    qed
  qed
qed

text \<open>
  \<open>mapHas(file, r = '')\<close>. The result is the boolean and the updated map. A
  recursive call on an unchanged path would recurse without end in the source (the
  engine raises RangeError when the stack is exhausted); that branch is the
  \<open>Inl\<close> result here, and \<open>mapHas_memo\<close> below shows the filter never takes it.
\<close>

function mapHas :: "pathmap \<Rightarrow> string \<Rightarrow> string \<Rightarrow> error + (bool \<times> pathmap)" where
  "mapHas m file r =
     (let root = (if r \<noteq> '''' then r
                  else if parse_root file \<noteq> '''' then parse_root file else ''.'')
      in if file = root then Inr (False, m(file \<mapsto> False))
         else case m file of
             Some b \<Rightarrow> Inr (b, m(file \<mapsto> b))
           | None \<Rightarrow>
               if dirname file = file
               then Inl (RangeError ''Maximum call stack size exceeded'')
               else (case mapHas m (dirname file) root of
                       Inl e \<Rightarrow> Inl e
                     | Inr (ret, m') \<Rightarrow> Inr (ret, m'(file \<mapsto> ret))))"
  by pat_completeness auto
termination
  by (relation "measure (\<lambda>(m, file, r). path_weight file)") (auto simp: dirname_weight)

declare mapHas.simps [simp del]

text \<open>
  The filter installed by \<open>filesFilter\<close>: the caller's predicate (when there is
  one) and then \<open>mapHas\<close> on the stripped path; \<open>&&\<close> does not call \<open>mapHas\<close> when
  the caller's predicate rejects.
\<close>

definition filesFilter ::
  "(string \<Rightarrow> 'e \<Rightarrow> bool) option \<Rightarrow> pathmap \<Rightarrow> string \<Rightarrow> 'e \<Rightarrow> error + (bool \<times> pathmap)" where
  "filesFilter flt m file entry =
     (case flt of
        Some f \<Rightarrow> if f file entry then mapHas m (stripTrailingSlashes file) '''' else Inr (False, m)
      | None \<Rightarrow> mapHas m (stripTrailingSlashes file) '''')"

subsection \<open>What the filter is meant to compute\<close>

text \<open>
  The root \<open>mapHas\<close> works with when it is called without one:
  \<open>parse(file).root || '.'\<close>.
\<close>

definition root_of :: "string \<Rightarrow> string" where
  "root_of file = (if parse_root file \<noteq> '''' then parse_root file else ''.'')"

text \<open>
  The upward walk of the spec: the path, its parent, its grandparent, and so on up to
  the root, which ends the walk and is not itself looked up.
\<close>

function walk :: "string \<Rightarrow> string \<Rightarrow> string list" where
  "walk file root =
     (if file = root then []
      else if dirname file = file then [file]
      else file # walk (dirname file) root)"
  by pat_completeness auto
termination
  by (relation "measure (\<lambda>(file, root). path_weight file)") (auto simp: dirname_weight)

declare walk.simps [simp del]

definition included_spec :: "string set \<Rightarrow> string \<Rightarrow> bool" where
  "included_spec R p = (\<exists>q \<in> set (walk p (root_of p)). q \<in> R)"

text \<open>
  A filter instance lives through many queries, and each one leaves its memo entries
  in the map. \<open>run_queries\<close> is the map after a sequence of earlier queries.
\<close>

fun run_queries :: "pathmap \<Rightarrow> string list \<Rightarrow> pathmap" where
  "run_queries m [] = m"
| "run_queries m (q # qs) =
     (case mapHas m q '''' of Inl e \<Rightarrow> run_queries m qs | Inr (b, m') \<Rightarrow> run_queries m' qs)"

text \<open>
  Invariant of the memo: outside the roots, every requested path is marked true and
  every mark is the answer the walk gives on the requested set.
\<close>

definition memo_ok :: "string set \<Rightarrow> pathmap \<Rightarrow> bool" where
  "memo_ok R m = ((\<forall>q. q \<in> R \<longrightarrow> q \<noteq> root_of q \<longrightarrow> m q = Some True) \<and>
                  (\<forall>q b. m q = Some b \<longrightarrow> q \<noteq> root_of q \<longrightarrow> b = included_spec R q))"

section \<open>replace.ts: appending to an archive\<close>

subsection \<open>The append scan\<close>

text \<open>
  \<open>Header\<close> (./header.js) is not among the sources: the decoder is a parameter of the
  scan, a function from the 512 bytes of \<open>headBuf\<close> to the four properties the scan
  reads. The size field of a header is octal text (spec, section 6), so a decoded size
  is a natural number or \<open>undefined\<close>; \<open>mtime\<close> is a date, in milliseconds.
  The fields \<open>size\<close>, \<open>mtime\<close> and \<open>path\<close> carry an \<open>h\<close> here, and the file
  length \<open>st.size\<close> is \<open>fsize\<close>, since \<open>size\<close> is a constant of the logic.
\<close>

record tar_header =
  cksumValid :: bool
  hsize :: "nat option"
  hmtime :: "int option"
  hpath :: "string option"

type_synonym reader = "nat \<Rightarrow> nat \<Rightarrow> error + byte list"
type_synonym mtime_cache = "(string \<rightharpoonup> int) option"
type_synonym reads = "(nat \<times> nat) list"
type_synonym scan_result = "(error + nat) \<times> mtime_cache \<times> reads"

text \<open>
  \<open>fs.readSync(fd, buf, off, len, pos)\<close> and \<open>fs.read\<close>: the reader is the file as
  the descriptor shows it, a function from a file position and a length to the bytes
  one read call transfers, or to the error it fails with. A read may transfer fewer
  bytes than asked for; it never transfers more. \<open>read_into\<close> stores the bytes in the
  buffer at \<open>off\<close> and returns their number with the buffer.
\<close>

definition read_into :: "reader \<Rightarrow> byte list \<Rightarrow> nat \<Rightarrow> nat \<Rightarrow> nat \<Rightarrow> error + (nat \<times> byte list)" where
  "read_into rd buf off len pos =
     (case rd pos len of
        Inl e \<Rightarrow> Inl e
      | Inr bs \<Rightarrow>
          let d = take len bs
          in Inr (length d, take off buf @ d @ drop (off + length d) buf))"

definition gzip_magic :: "byte list \<Rightarrow> bool" where
  "gzip_magic headBuf = (headBuf ! 0 = 0x1f \<and> headBuf ! 1 = 0x8b)"

text \<open>\<open>512 * Math.ceil(n / 512)\<close>, where \<open>n\<close> is \<open>h.size || 0\<close> in the blocking scan
  and \<open>h.size ?? 0\<close> in the other: both are 0 for an undefined size and \<open>n\<close>
  otherwise.\<close>

definition entryBlockSize :: "nat \<Rightarrow> nat" where
  "entryBlockSize n = 512 * ((n + 511) div 512)"

text \<open>\<open>String(h.path)\<close>\<close>

definition js_String :: "string option \<Rightarrow> string" where
  "js_String s = (case s of None \<Rightarrow> ''undefined'' | Some x \<Rightarrow> x)"

text \<open>\<open>if (opt.mtimeCache && h.mtime) opt.mtimeCache.set(String(h.path), h.mtime)\<close>;
  a date object is truthy.\<close>

definition cache_set :: "mtime_cache \<Rightarrow> tar_header \<Rightarrow> mtime_cache" where
  "cache_set cache h =
     (case cache of
        None \<Rightarrow> None
      | Some m \<Rightarrow> (case hmtime h of None \<Rightarrow> Some m | Some t \<Rightarrow> Some (m(js_String (hpath h) \<mapsto> t))))"

text \<open>
  The inner loop of \<open>replaceSync\<close>, which fills \<open>headBuf\<close> from \<open>bufPos\<close> on. It
  ends by a throw (a failed read, or the gzip check that follows every read at
  position 0), by \<open>break POSITION\<close> on a read of no bytes, or with the buffer full.
  The list of reads, each a file position and a length, is carried along.
\<close>

datatype fill = FillThrow error | FillEof | FillDone

function fillSync :: "reader \<Rightarrow> nat \<Rightarrow> byte list \<Rightarrow> nat \<Rightarrow> reads \<Rightarrow> fill \<times> byte list \<times> reads" where
  "fillSync rd position headBuf bufPos tr =
     (if bufPos < 512 then
        (case read_into rd headBuf bufPos (512 - bufPos) (position + bufPos) of
           Inl e \<Rightarrow> (FillThrow e, headBuf, tr @ [(position + bufPos, 512 - bufPos)])
         | Inr (bytes, hb) \<Rightarrow>
             if position = 0 \<and> gzip_magic hb
             then (FillThrow (Error ''cannot append to compressed archives''), hb,
                   tr @ [(position + bufPos, 512 - bufPos)])
             else if bytes = 0 then (FillEof, hb, tr @ [(position + bufPos, 512 - bufPos)])
             else fillSync rd position hb (bufPos + bytes) (tr @ [(position + bufPos, 512 - bufPos)]))
      else (FillDone, headBuf, tr))"
  by pat_completeness auto
termination
  by (relation "measure (\<lambda>(rd, position, headBuf, bufPos, tr). 512 - bufPos)") auto

declare fillSync.simps [simp del]

text \<open>
  The outer loop of \<open>replaceSync\<close>. The result is the position the loop ends with or
  the error thrown, the cache, and the reads made. The two additions to \<open>position\<close>
  of one round, \<open>entryBlockSize\<close> in the body and 512 in the loop header, are made
  together here.
\<close>

function scanSync ::
  "reader \<Rightarrow> (byte list \<Rightarrow> tar_header) \<Rightarrow> nat \<Rightarrow> nat \<Rightarrow> byte list \<Rightarrow> mtime_cache \<Rightarrow> reads \<Rightarrow> scan_result" where
  "scanSync rd decode fsize position headBuf cache tr =
     (if position < fsize then
        (case fillSync rd position headBuf 0 tr of
           (FillThrow e, hb, tr') \<Rightarrow> (Inl e, cache, tr')
         | (FillEof, hb, tr') \<Rightarrow> (Inr position, cache, tr')
         | (FillDone, hb, tr') \<Rightarrow>
             let h = decode hb in
             if \<not> cksumValid h then (Inr position, cache, tr')
             else
               let ebs = entryBlockSize (case hsize h of None \<Rightarrow> 0 | Some n \<Rightarrow> n) in
               if position + ebs + 512 > fsize then (Inr position, cache, tr')
               else scanSync rd decode fsize (position + ebs + 512) hb (cache_set cache h) tr')
      else (Inr position, cache, tr))"
  by pat_completeness auto
termination
  by (relation "measure (\<lambda>(rd, decode, fsize, position, headBuf, cache, tr). fsize - position)") auto

declare scanSync.simps [simp del]

text \<open>
  \<open>getPos\<close> of \<open>replaceAsync\<close>: \<open>onread\<close> here is one \<open>fs.read\<close> into
  \<open>headBuf\<close> at \<open>bufPos\<close> together with the callback that receives its result; the
  first read of a block is the case \<open>bufPos = 0\<close>. The result is what the callback
  \<open>cb\<close> is called with.
\<close>

function onread ::
  "reader \<Rightarrow> (byte list \<Rightarrow> tar_header) \<Rightarrow> nat \<Rightarrow> nat \<Rightarrow> nat \<Rightarrow> byte list \<Rightarrow> mtime_cache \<Rightarrow> reads \<Rightarrow> scan_result" where
  "onread rd decode fsize position bufPos headBuf cache tr =
     (case read_into rd headBuf bufPos (512 - bufPos) (position + bufPos) of
        Inl e \<Rightarrow> (Inl e, cache, tr @ [(position + bufPos, 512 - bufPos)])
      | Inr (bytes, hb) \<Rightarrow>
          if bufPos + bytes < 512 \<and> bytes \<noteq> 0
          then onread rd decode fsize position (bufPos + bytes) hb cache
                 (tr @ [(position + bufPos, 512 - bufPos)])
          else if position = 0 \<and> gzip_magic hb
          then (Inl (Error ''cannot append to compressed archives''), cache,
                tr @ [(position + bufPos, 512 - bufPos)])
          else if bufPos + bytes < 512
          then (Inr position, cache, tr @ [(position + bufPos, 512 - bufPos)])
          else
            let h = decode hb in
            if \<not> cksumValid h then (Inr position, cache, tr @ [(position + bufPos, 512 - bufPos)])
            else
              let ebs = entryBlockSize (case hsize h of None \<Rightarrow> 0 | Some n \<Rightarrow> n) in
              if position + ebs + 512 > fsize
              then (Inr position, cache, tr @ [(position + bufPos, 512 - bufPos)])
              else if position + ebs + 512 \<ge> fsize
              then (Inr (position + ebs + 512), cache, tr @ [(position + bufPos, 512 - bufPos)])
              else onread rd decode fsize (position + ebs + 512) 0 hb (cache_set cache h)
                     (tr @ [(position + bufPos, 512 - bufPos)]))"
  by pat_completeness auto
termination
  by (relation "measures [\<lambda>(rd, decode, fsize, position, bufPos, headBuf, cache, tr). fsize - position,
                          \<lambda>(rd, decode, fsize, position, bufPos, headBuf, cache, tr). 512 - bufPos]") auto

declare onread.simps [simp del]

definition replaceSync_scan :: "reader \<Rightarrow> (byte list \<Rightarrow> tar_header) \<Rightarrow> nat \<Rightarrow> mtime_cache \<Rightarrow> scan_result" where
  "replaceSync_scan rd decode fsize cache = scanSync rd decode fsize 0 (replicate 512 0) cache []"

definition getPos :: "reader \<Rightarrow> (byte list \<Rightarrow> tar_header) \<Rightarrow> nat \<Rightarrow> mtime_cache \<Rightarrow> scan_result" where
  "getPos rd decode fsize cache =
     (if fsize = 0 then (Inr 0, cache, [])
      else onread rd decode fsize 0 0 (replicate 512 0) cache [])"

text \<open>The offset a scan ends with, \<open>None\<close> when it failed.\<close>

definition offset_of :: "scan_result \<Rightarrow> nat option" where
  "offset_of r = (case fst r of Inl e \<Rightarrow> None | Inr p \<Rightarrow> Some p)"

text \<open>
  What keeps the gzip checks of the two modes together at position 0 while the first
  block is still filling: byte 1 of the buffer is not 0x8b before it has been read,
  and the buffer does not start with the magic bytes once it has.
\<close>

definition gzip_safe :: "nat \<Rightarrow> byte list \<Rightarrow> nat \<Rightarrow> bool" where
  "gzip_safe position hb bp =
     (position = 0 \<longrightarrow> (if bp < 2 then hb ! 1 \<noteq> 0x8b else \<not> gzip_magic hb))"

text \<open>The decisions both scans take on a full header block; \<open>k\<close> is the scan of
  the next block.\<close>

definition after_header ::
  "(byte list \<Rightarrow> tar_header) \<Rightarrow> nat \<Rightarrow> nat \<Rightarrow> byte list \<Rightarrow> (nat \<Rightarrow> nat option) \<Rightarrow> nat option" where
  "after_header decode fsize position hb k =
     (let h = decode hb in
      if \<not> cksumValid h then Some position
      else
        let ebs = entryBlockSize (case hsize h of None \<Rightarrow> 0 | Some n \<Rightarrow> n) in
        if position + ebs + 512 > fsize then Some position
        else if position + ebs + 512 \<ge> fsize then Some (position + ebs + 512)
        else k (position + ebs + 512))"

text \<open>
  A reader over a file with the given content. \<open>chunk pos len\<close> is the number of
  bytes the system hands over for one call; \<open>whole_reads\<close> hands over all that is
  asked for.
\<close>

definition file_reader :: "byte list \<Rightarrow> (nat \<Rightarrow> nat \<Rightarrow> nat) \<Rightarrow> reader" where
  "file_reader content chunk pos len = Inr (take (chunk pos len) (take len (drop pos content)))"

definition whole_reads :: "nat \<Rightarrow> nat \<Rightarrow> nat" where
  "whole_reads pos len = len"

text \<open>
  A decoder for the examples: a block that starts with the byte 0x61 is the header of
  the empty file \<open>a\<close> with a modification time; any other block has no valid
  checksum.
\<close>

definition example_decode :: "byte list \<Rightarrow> tar_header" where
  "example_decode hb =
     (if hb ! 0 = 0x61
      then \<lparr>cksumValid = True, hsize = Some 0, hmtime = Some 1000, hpath = Some ''a''\<rparr>
      else \<lparr>cksumValid = False, hsize = None, hmtime = None, hpath = None\<rparr>)"

text \<open>Every read lies within the first 512 bytes of the file.\<close>

definition reads_in_first_block :: "reads \<Rightarrow> bool" where
  "reads_in_first_block tr = list_all (\<lambda>(off, len). off + len \<le> 512) tr"

subsection \<open>The two implementations and the command\<close>

text \<open>
  The file system as the append sees it for the one path it works on: the outcome of
  opening it with \<open>r+\<close> and with \<open>w+\<close>, of \<open>fstat\<close> on the descriptor, and the
  reader over it. The calls made are recorded as a list of events. The packer and the
  write stream are collaborators outside the sources: handing the descriptor to the
  write stream at the offset found is one event.
\<close>

record fsys =
  open_rw :: "error + unit"
  open_create :: "error + unit"
  fstat_size :: "error + nat"
  read_at :: reader

datatype io =
  IoOpen string string | IoFstat | IoRead nat nat | IoClose | IoWriteStream nat "string list"

text \<open>Open with \<open>r+\<close>; on \<open>ENOENT\<close>, and only then, open with \<open>w+\<close>.\<close>

definition open_file :: "fsys \<Rightarrow> string \<Rightarrow> (error + unit) \<times> io list" where
  "open_file fs f =
     (case open_rw fs of
        Inr u \<Rightarrow> (Inr u, [IoOpen f ''r+''])
      | Inl er \<Rightarrow>
          if er = IOError ''ENOENT''
          then (open_create fs, [IoOpen f ''r+'', IoOpen f ''w+''])
          else (Inl er, [IoOpen f ''r+'']))"

definition read_events :: "reads \<Rightarrow> io list" where
  "read_events rs = map (\<lambda>(pos, len). IoRead pos len) rs"

text \<open>
  \<open>replaceSync\<close>: a throw after the descriptor is open closes it in \<open>finally\<close>;
  when no descriptor was opened the \<open>closeSync\<close> there fails on its argument and is
  ignored.
\<close>

definition replaceSync ::
  "(byte list \<Rightarrow> tar_header) \<Rightarrow> fsys \<Rightarrow> string \<Rightarrow> mtime_cache \<Rightarrow> string list
   \<Rightarrow> (error + unit) \<times> mtime_cache \<times> io list" where
  "replaceSync decode fs f cache files =
     (case open_file fs f of
        (Inl er, tr) \<Rightarrow> (Inl er, cache, tr)
      | (Inr u, tr) \<Rightarrow>
          (case fstat_size fs of
             Inl er \<Rightarrow> (Inl er, cache, tr @ [IoFstat, IoClose])
           | Inr fsize \<Rightarrow>
               (case replaceSync_scan (read_at fs) decode fsize cache of
                  (Inl er, cache', rs) \<Rightarrow>
                    (Inl er, cache', tr @ [IoFstat] @ read_events rs @ [IoClose])
                | (Inr position, cache', rs) \<Rightarrow>
                    (Inr (), cache',
                     tr @ [IoFstat] @ read_events rs @ [IoWriteStream position files]))))"

text \<open>\<open>replaceAsync\<close>: the promise is rejected with the error or resolved.\<close>

definition replaceAsync ::
  "(byte list \<Rightarrow> tar_header) \<Rightarrow> fsys \<Rightarrow> string \<Rightarrow> mtime_cache \<Rightarrow> string list
   \<Rightarrow> (error + unit) \<times> mtime_cache \<times> io list" where
  "replaceAsync decode fs f cache files =
     (case open_file fs f of
        (Inl er, tr) \<Rightarrow> (Inl er, cache, tr)
      | (Inr u, tr) \<Rightarrow>
          (case fstat_size fs of
             Inl er \<Rightarrow> (Inl er, cache, tr @ [IoFstat, IoClose])
           | Inr fsize \<Rightarrow>
               (case getPos (read_at fs) decode fsize cache of
                  (Inl er, cache', rs) \<Rightarrow>
                    (Inl er, cache', tr @ [IoFstat] @ read_events rs @ [IoClose])
                | (Inr position, cache', rs) \<Rightarrow>
                    (Inr (), cache',
                     tr @ [IoFstat] @ read_events rs @ [IoWriteStream position files]))))"

text \<open>The options \<open>replace\<close> reads.\<close>

record tarOptions =
  opt_file :: "string option"
  opt_sync :: bool
  opt_gzip :: bool
  opt_brotli :: bool
  opt_mtimeCache :: mtime_cache

definition endsWith :: "string \<Rightarrow> string \<Rightarrow> bool" where
  "endsWith s suffix =
     (length suffix \<le> length s \<and> drop (length s - length suffix) s = suffix)"

text \<open>
  The validation function \<open>replace\<close> passes to \<open>makeCommand\<close>; \<open>None\<close> when it
  returns without a throw. \<open>isFile(opt)\<close> is from ./options.js, which is not among
  the sources: by the spec it holds when the destination path is configured.
  \<open>!entries?.length\<close> holds for an absent and for an empty list.
\<close>

definition replace_validate :: "tarOptions \<Rightarrow> string list option \<Rightarrow> error option" where
  "replace_validate opt entries =
     (case opt_file opt of
        None \<Rightarrow> Some (TypeError ''file is required'')
      | Some f \<Rightarrow>
          if opt_gzip opt \<or> opt_brotli opt \<or> endsWith f ''.br'' \<or> endsWith f ''.tbr''
          then Some (TypeError ''cannot append to compressed archives'')
          else if (case entries of None \<Rightarrow> True | Some es \<Rightarrow> es = [])
          then Some (TypeError ''no paths specified to add/replace'')
          else None)"

text \<open>
  Modelled from the spec: \<open>makeCommand\<close> (./make-command.js is not among the
  sources). The spec says that the command validates eagerly, before any I/O, in
  both execution modes: the validation function runs first and its throw is the
  command's; after it the command runs the file implementation of the mode asked
  for. Without a file the source passes implementations that throw
  \<open>file is required\<close>.
\<close>

definition replace ::
  "(byte list \<Rightarrow> tar_header) \<Rightarrow> fsys \<Rightarrow> tarOptions \<Rightarrow> string list option
   \<Rightarrow> (error + unit) \<times> mtime_cache \<times> io list" where
  "replace decode fs opt entries =
     (case replace_validate opt entries of
        Some er \<Rightarrow> (Inl er, opt_mtimeCache opt, [])
      | None \<Rightarrow>
          (case opt_file opt of
             None \<Rightarrow> (Inl (TypeError ''file is required''), opt_mtimeCache opt, [])
           | Some f \<Rightarrow>
               if opt_sync opt
               then replaceSync decode fs f (opt_mtimeCache opt)
                      (case entries of None \<Rightarrow> [] | Some es \<Rightarrow> es)
               else replaceAsync decode fs f (opt_mtimeCache opt)
                      (case entries of None \<Rightarrow> [] | Some es \<Rightarrow> es)))"

section \<open>entry.js: the entry and its body stream\<close>

subsection \<open>Values and objects\<close>

text \<open>
  The values a header field can hold: a number, a string, and, after \<open>_setProps\<close>
  has converted the three time fields, a date (milliseconds since the epoch) or the
  invalid date. \<open>JNaN\<close> is what arithmetic on a non-number leaves behind. The numeric
  fields have been decoded before the entry is built (the source says so in
  \<open>_setProps\<close>), so a string in a numeric position is text that is not a numeral:
  it reads as not-a-number.
\<close>

datatype jsval = JNum int | JNaN | JStr string | JDate int | JInvalidDate

text \<open>
  An object given to the constructor: its own keys in order, each with a value or with
  \<open>undefined\<close> (\<open>None\<close>). \<open>obj_get\<close> is the property read \<open>o[k]\<close>, where a missing
  key reads as \<open>undefined\<close> too.
\<close>

type_synonym jsobj = "(string \<times> jsval option) list"

definition obj_get :: "jsobj \<Rightarrow> string \<Rightarrow> jsval option" where
  "obj_get obj k = (case map_of obj k of Some (Some v) \<Rightarrow> Some v | _ \<Rightarrow> None)"

definition obj_keys :: "jsobj \<Rightarrow> string list" where
  "obj_keys obj = map fst obj"

text \<open>The number a value stands for in \<open>>\<close> and \<open>-=\<close>; \<open>None\<close> is NaN.\<close>

definition num_of :: "jsval option \<Rightarrow> int option" where
  "num_of v = (case v of Some (JNum n) \<Rightarrow> Some n | Some (JDate d) \<Rightarrow> Some d | _ \<Rightarrow> None)"

text \<open>\<open>new Date(v * 1000)\<close>.\<close>

definition to_date :: "jsval \<Rightarrow> jsval" where
  "to_date v = (case num_of (Some v) of Some n \<Rightarrow> JDate (n * 1000) | None \<Rightarrow> JInvalidDate)"

text \<open>\<open>c.slice(0, n)\<close>: a negative \<open>n\<close> counts from the end.\<close>

definition js_slice0 :: "'a list \<Rightarrow> int \<Rightarrow> 'a list" where
  "js_slice0 c n = (if 0 \<le> n then take (nat n) c else take (nat (int (length c) + n)) c)"

subsection \<open>The entry object\<close>

datatype event =
  EvData "byte list option" | EvDrain | EvEnd | EvPause | EvResume | EvError error

text \<open>
  The fields of an \<open>Entry\<close>, without the leading underscore of the source.
  \<open>maxQueueLen\<close> is read by \<open>_read\<close> and set nowhere in the file, so it is
  \<open>undefined\<close> (\<open>None\<close>) unless a caller assigns it. The event emitter is kept as
  the list of events emitted so far; \<open>errorListener\<close> says whether an \<open>error\<close>
  listener is attached (without one, emitting \<open>error\<close> throws). Listeners are not
  run: what a listener does in the middle of a delivery is outside this model.
\<close>

record entry =
  readable :: bool
  writable :: bool
  needDrain :: bool
  paused :: bool
  reading :: bool
  ending :: bool
  ended :: bool
  remaining :: "jsval option"
  queue :: "byte list list"
  index :: nat
  queueLen :: nat
  maxQueueLen :: "nat option"
  props :: "string \<rightharpoonup> jsval"
  header :: jsobj
  extended :: jsobj
  global :: jsobj
  etype :: string
  path :: "jsval option"
  errorListener :: bool
  events :: "event list"

definition emit :: "entry \<Rightarrow> event \<Rightarrow> entry" where
  "emit e ev = e\<lparr>events := events e @ [ev]\<rparr>"

text \<open>\<open>this._queue[i]\<close>; out of range it is \<open>undefined\<close>.\<close>

definition queue_at :: "byte list list \<Rightarrow> nat \<Rightarrow> byte list option" where
  "queue_at q i = (if i < length q then Some (q ! i) else None)"

text \<open>\<open>_read\<close>: one delivery attempt.\<close>

definition Entry_read :: "entry \<Rightarrow> entry" where
  "Entry_read e =
     (if paused e \<or> reading e \<or> ended e then e
      else
        let e1 = e\<lparr>reading := True\<rparr>;
            e2 = (if index e1 < queueLen e1
                  then emit (e1\<lparr>index := index e1 + 1\<rparr>) (EvData (queue_at (queue e1) (index e1)))
                  else e1);
            e3 = (if index e2 \<ge> queueLen e2
                  then
                    let a = e2\<lparr>queue := [], queueLen := 0, index := 0\<rparr>;
                        b = (if needDrain a then emit (a\<lparr>needDrain := False\<rparr>) EvDrain else a)
                    in (if ending b then emit (b\<lparr>ended := True\<rparr>) EvEnd else b)
                  else e2);
            e4 = (case maxQueueLen e3 of
                    None \<Rightarrow> e3
                  | Some mql \<Rightarrow>
                      if queueLen e3 > mql \<and> index e3 > 0
                      then let k = min (index e3) mql
                           in e3\<lparr>index := index e3 - k, queueLen := queueLen e3 - k,
                                 queue := drop k (queue e3)\<rparr>
                      else e3)
        in e4\<lparr>reading := False\<rparr>)"

text \<open>
  \<open>write(c)\<close>: the thrown error or the returned boolean, and the entry afterwards.
  Both throws leave the entry as it was: \<open>write() after end()\<close> is the first
  statement, and an \<open>error\<close> event without a listener throws out of \<open>emit\<close>
  before anything is changed.
\<close>

definition Entry_write :: "entry \<Rightarrow> byte list \<Rightarrow> (error + bool) \<times> entry" where
  "Entry_write e c =
     (if ending e then (Inl (Error ''write() after end()''), e)
      else if remaining e = Some (JNum 0) \<and> \<not> errorListener e
      then (Inl (Error ''invalid bytes past eof''), e)
      else
        let e1 = (if remaining e = Some (JNum 0)
                  then emit e (EvError (Error ''invalid bytes past eof'')) else e);
            c1 = (case num_of (remaining e1) of
                    Some r \<Rightarrow> if int (length c) > r then js_slice0 c r else c
                  | None \<Rightarrow> c);
            e2 = e1\<lparr>remaining :=
                      Some (case num_of (remaining e1) of
                              Some r \<Rightarrow> JNum (r - int (length c1))
                            | None \<Rightarrow> JNaN)\<rparr>;
            ql = queueLen e2;
            e3 = e2\<lparr>queue := queue e2 @ [c1], queueLen := queueLen e2 + 1\<rparr>;
            e4 = Entry_read e3
        in if paused e4 \<or> ql > 0 then (Inr False, e4\<lparr>needDrain := True\<rparr>)
           else (Inr True, e4))"

text \<open>\<open>end(c)\<close>: a buffer is truthy even when empty, so any chunk given is written.\<close>

definition Entry_end :: "entry \<Rightarrow> byte list option \<Rightarrow> error option \<times> entry" where
  "Entry_end e c =
     (case c of
        None \<Rightarrow> (None, Entry_read (e\<lparr>ending := True\<rparr>))
      | Some ch \<Rightarrow>
          (case Entry_write e ch of
             (Inl er, e') \<Rightarrow> (Some er, e')
           | (Inr _, e') \<Rightarrow> (None, Entry_read (e'\<lparr>ending := True\<rparr>))))"

definition Entry_pause :: "entry \<Rightarrow> entry" where
  "Entry_pause e = emit (e\<lparr>paused := True\<rparr>) EvPause"

definition Entry_resume :: "entry \<Rightarrow> bool \<times> entry" where
  "Entry_resume e =
     (let e1 = Entry_read ((emit e EvResume)\<lparr>paused := False\<rparr>)
      in (int (queueLen e1) - int (index e1) > 1, e1))"

subsection \<open>\<open>_setProps\<close>: merge, dates, type\<close>

text \<open>
  \<open>tar.fields\<close> and \<open>tar.types\<close> come from ../tar, which is not among the
  sources; both are parameters. \<open>tfields\<close> is the array of field names up to its
  \<open>null\<close> terminator. \<open>types\<close> is the lookup \<open>tar.types[v]\<close> itself, from the
  (possibly undefined) value of \<open>props.type\<close> to the name found, \<open>None\<close> when the
  table has no such key.
\<close>

text \<open>First loop: every field of the table that the header defines.\<close>

definition header_props :: "string list \<Rightarrow> jsobj \<Rightarrow> (string \<rightharpoonup> jsval) \<Rightarrow> (string \<rightharpoonup> jsval)" where
  "header_props tfields hdr p0 =
     foldl (\<lambda>p field. case obj_get hdr field of None \<Rightarrow> p | Some v \<Rightarrow> p(field \<mapsto> v)) p0 tfields"

text \<open>Second loop, for one layer: every key of the layer with a defined value.\<close>

definition overlay :: "(string \<rightharpoonup> jsval) \<Rightarrow> jsobj \<Rightarrow> (string \<rightharpoonup> jsval)" where
  "overlay p layer =
     foldl (\<lambda>p f. case obj_get layer f of None \<Rightarrow> p | Some v \<Rightarrow> p(f \<mapsto> v)) p (obj_keys layer)"

definition merge_layers :: "string list \<Rightarrow> entry \<Rightarrow> (string \<rightharpoonup> jsval)" where
  "merge_layers tfields e =
     overlay (overlay (header_props tfields (header e) (props e)) (global e)) (extended e)"

definition date_fields :: "(string \<rightharpoonup> jsval) \<Rightarrow> (string \<rightharpoonup> jsval)" where
  "date_fields p =
     foldl (\<lambda>p f. case p f of None \<Rightarrow> p | Some v \<Rightarrow> p(f \<mapsto> to_date v)) p
       [''mtime'', ''ctime'', ''atime'']"

text \<open>The \<open>switch\<close> on \<open>tar.types[props.type]\<close>, in the order of its cases.\<close>

definition classify :: "(jsval option \<Rightarrow> string option) \<Rightarrow> jsval option \<Rightarrow> string" where
  "classify types t =
     (case types t of
        Some n \<Rightarrow>
          if n = ''OldFile'' \<or> n = ''ContiguousFile'' then ''File''
          else if n = ''GNUDumpDir'' then ''Directory''
          else n
      | None \<Rightarrow> ''Unknown'')"

definition Entry_setProps ::
  "string list \<Rightarrow> (jsval option \<Rightarrow> string option) \<Rightarrow> entry \<Rightarrow> entry" where
  "Entry_setProps tfields types e =
     (let p = date_fields (merge_layers tfields e)
      in e\<lparr>props := p, etype := classify types (p ''type''), path := p ''path'',
            remaining := p ''size''\<rparr>)"

text \<open>
  The constructor. \<open>extended || {}\<close> and \<open>global || {}\<close> make an absent argument the
  empty object. The copy of the global layer is
  \<^verbatim>\<open>Object.keys(global || {}).forEach(function (g) { this._global[g] = global[g] })\<close>
  and the callback is a plain function, called by \<open>forEach\<close> without a receiver: inside
  it \<open>this\<close> is not the entry, \<open>this._global\<close> is not an object, and the assignment
  throws a TypeError on the first key. The constructor therefore completes only when
  the global layer has no key. \<open>Entry_init\<close> is the entry as the assignments of
  the constructor leave it, before \<open>_setProps\<close> runs.
\<close>

definition Entry_init :: "jsobj \<Rightarrow> jsobj option \<Rightarrow> entry" where
  "Entry_init hdr ext =
     \<lparr>readable = True, writable = True, needDrain = False, paused = False,
      reading = False, ending = False, ended = False, remaining = Some (JNum 0),
      queue = [], index = 0, queueLen = 0, maxQueueLen = None,
      props = Map.empty, header = hdr,
      extended = (case ext of None \<Rightarrow> [] | Some x \<Rightarrow> x),
      global = [], etype = '''', path = None,
      errorListener = False, events = []\<rparr>"

definition Entry ::
  "string list \<Rightarrow> (jsval option \<Rightarrow> string option) \<Rightarrow> jsobj \<Rightarrow> jsobj option \<Rightarrow> jsobj option
   \<Rightarrow> error + entry" where
  "Entry tfields types hdr ext glo =
     (if obj_keys (case glo of None \<Rightarrow> [] | Some g \<Rightarrow> g) \<noteq> []
      then Inl (TypeError ''Cannot set properties of undefined'')
      else Inr (Entry_setProps tfields types (Entry_init hdr ext)))"

text \<open>Calls made on an entry by its driver, and a run of them; a call that throws
  leaves the entry to the next call as the throw left it.\<close>

datatype call = Write "byte list" | End "byte list option" | Pause | Resume

fun run_call :: "entry \<Rightarrow> call \<Rightarrow> entry" where
  "run_call e (Write c) = snd (Entry_write e c)"
| "run_call e (End c) = snd (Entry_end e c)"
| "run_call e Pause = Entry_pause e"
| "run_call e Resume = snd (Entry_resume e)"

definition run_calls :: "entry \<Rightarrow> call list \<Rightarrow> entry" where
  "run_calls e cs = foldl run_call e cs"

text \<open>Bytes delivered so far (the \<open>data\<close> events) and bytes queued and not yet
  delivered.\<close>

fun event_bytes :: "event \<Rightarrow> nat" where
  "event_bytes (EvData (Some c)) = length c"
| "event_bytes _ = 0"

definition delivered_bytes :: "entry \<Rightarrow> nat" where
  "delivered_bytes e = sum_list (map event_bytes (events e))"

definition pending_bytes :: "entry \<Rightarrow> nat" where
  "pending_bytes e = sum_list (map length (drop (index e) (queue e)))"

text \<open>The queue bookkeeping agrees with the queue: \<open>_queueLen\<close> is its length and
  \<open>_index\<close> points into it.\<close>

definition wf_queue :: "entry \<Rightarrow> bool" where
  "wf_queue e = (queueLen e = length (queue e) \<and> index e \<le> queueLen e)"

text \<open>
  Invariant of the body stream for a declared size \<open>n\<close>: the counter is a number
  that is not negative, and delivered bytes, queued bytes and the counter add up to
  \<open>n\<close>.
\<close>

definition stream_inv :: "int \<Rightarrow> entry \<Rightarrow> bool" where
  "stream_inv n e =
     (wf_queue e \<and>
      (\<exists>r. remaining e = Some (JNum r) \<and> 0 \<le> r \<and>
           int (delivered_bytes e) + int (pending_bytes e) + r = n))"

text \<open>
  The merged value of a field, in the words of the spec: the extended value when it is
  defined, else the global value when it is defined, else the header's.
\<close>

definition merged :: "jsobj \<Rightarrow> jsobj \<Rightarrow> jsobj \<Rightarrow> string \<Rightarrow> jsval option" where
  "merged hdr glo ext f =
     (case obj_get ext f of
        Some v \<Rightarrow> Some v
      | None \<Rightarrow> (case obj_get glo f of Some v \<Rightarrow> Some v | None \<Rightarrow> obj_get hdr f))"

text \<open>
  An instance of the two tables of ../tar for the examples below: the field names of a
  ustar header, and the type flags of the ustar and pax formats under the names the
  \<open>switch\<close> of \<open>_setProps\<close> uses.
\<close>

definition tar_fields :: "string list" where
  "tar_fields = [''path'', ''mode'', ''uid'', ''gid'', ''size'', ''mtime'', ''cksum'', ''type'',
                 ''linkpath'']"

definition tar_types :: "jsval option \<Rightarrow> string option" where
  "tar_types v =
     (case v of
        Some (JStr s) \<Rightarrow>
          map_of [(''0'', ''File''), ('''', ''OldFile''), (''1'', ''Link''),
                  (''2'', ''SymbolicLink''), (''3'', ''CharacterDevice''),
                  (''4'', ''BlockDevice''), (''5'', ''Directory''), (''6'', ''FIFO''),
                  (''7'', ''ContiguousFile''), (''g'', ''GlobalExtendedHeader''),
                  (''x'', ''ExtendedHeader''), (''D'', ''GNUDumpDir'')] s
      | _ \<Rightarrow> None)"

section \<open>Properties of the path filter\<close>

lemma dirname_fix: "dirname p = p \<Longrightarrow> p = ''.'' \<or> p = ''/''"
proof (rule ccontr)
  assume a: "dirname p = p" and n: "\<not> (p = ''.'' \<or> p = ''/'')"
  have "p \<noteq> []" using a by (auto simp: dirname_def)
  show False
  proof (cases "dirname_scan p (length p - 1) True")
    case None
    with \<open>p \<noteq> []\<close> have "dirname p = ''/'' \<or> dirname p = ''.''"
      by (simp add: dirname_def Let_def)
    with a n show False by auto
  next
    case (Some e)
    from dirname_scan_bound_True [OF Some] have e: "1 \<le> e" "e + 2 \<le> length p" by auto
    from Some \<open>p \<noteq> []\<close> have "dirname p = ''//'' \<or> dirname p = take e p"
      by (simp add: dirname_def Let_def)
    then have "length (dirname p) < length p" using e by auto
    with a show False by simp
  qed
qed

lemma root_of_cases: "root_of p = (if p \<noteq> [] \<and> hd p = CHR ''/'' then ''/'' else ''.'')"
  by (cases p) (auto simp: root_of_def parse_root_def)

lemma root_of_dirname: "root_of (dirname p) = root_of p"
proof (cases "p = []")
  case True
  then show ?thesis by (simp add: dirname_def root_of_cases)
next
  case False
  show ?thesis
  proof (cases "dirname_scan p (length p - 1) True")
    case None
    with False show ?thesis by (simp add: dirname_def Let_def root_of_cases)
  next
    case (Some e)
    from dirname_scan_bound_True [OF Some] have e: "1 \<le> e" "e + 2 \<le> length p" by auto
    then have "take e p \<noteq> []" "hd (take e p) = hd p" using False by (auto simp: hd_take)
    with Some False show ?thesis by (simp add: dirname_def Let_def root_of_cases)
  qed
qed

lemma root_of_root [simp]: "root_of (root_of p) = root_of p"
  by (simp add: root_of_cases)

lemma walk_root [simp]: "walk (root_of p) (root_of p) = []"
  by (subst walk.simps) simp

lemma walk_step:
  assumes "p \<noteq> root_of p"
  shows "walk p (root_of p) = p # walk (dirname p) (root_of (dirname p))"
proof -
  have "dirname p \<noteq> p"
  proof
    assume "dirname p = p"
    from dirname_fix [OF this] assms show False by (auto simp: root_of_cases)
  qed
  with assms show ?thesis by (subst walk.simps) (simp add: root_of_dirname)
qed

lemma included_spec_root: "p = root_of p \<Longrightarrow> \<not> included_spec R p"
  using walk_root [of p] by (simp add: included_spec_def)

lemma included_spec_step:
  "p \<noteq> root_of p \<Longrightarrow> included_spec R p = (p \<in> R \<or> included_spec R (dirname p))"
  by (simp add: included_spec_def walk_step)

lemma included_spec_self: "p \<in> R \<Longrightarrow> p \<noteq> root_of p \<Longrightarrow> included_spec R p"
  by (subst included_spec_step) simp_all

lemma memo_ok_upd:
  "memo_ok R m \<Longrightarrow> b = included_spec R p \<Longrightarrow> memo_ok R (m(p \<mapsto> b))"
  by (auto simp: memo_ok_def included_spec_self)

lemma memo_ok_upd_root:
  "memo_ok R m \<Longrightarrow> p = root_of p \<Longrightarrow> memo_ok R (m(p \<mapsto> b))"
  by (auto simp: memo_ok_def)

lemma mapHas_memo:
  "memo_ok R m \<Longrightarrow> r = '''' \<or> r = root_of p \<Longrightarrow>
   \<exists>m'. mapHas m p r = Inr (included_spec R p, m') \<and> memo_ok R m'"
proof (induction m p r rule: mapHas.induct)
  case (1 m fl r)
  define root where "root = (if r \<noteq> '''' then r
                  else if parse_root fl \<noteq> '''' then parse_root fl else ''.'')"
  have root: "root = root_of fl"
    using "1.prems"(2) by (auto simp: root_def root_of_def)
  show ?case
  proof (cases "fl = root")
    case True
    then have "mapHas m fl r = Inr (False, m(fl \<mapsto> False))"
      by (subst mapHas.simps) (simp add: root_def Let_def)
    moreover have "\<not> included_spec R fl" using True root by (simp add: included_spec_root)
    moreover have "memo_ok R (m(fl \<mapsto> False))"
      using "1.prems"(1) True root by (simp add: memo_ok_upd_root)
    ultimately show ?thesis by simp
  next
    case False
    then have nr: "fl \<noteq> root_of fl" using root by simp
    show ?thesis
    proof (cases "m fl")
      case (Some b)
      then have "mapHas m fl r = Inr (b, m(fl \<mapsto> b))"
        using False by (subst mapHas.simps) (simp add: root_def Let_def)
      moreover have b: "b = included_spec R fl"
        using "1.prems"(1) Some nr by (auto simp: memo_ok_def)
      moreover have "memo_ok R (m(fl \<mapsto> b))"
        using "1.prems"(1) b by (simp add: memo_ok_upd)
      ultimately show ?thesis by simp
    next
      case None
      have nfix: "dirname fl \<noteq> fl"
      proof
        assume "dirname fl = fl"
        from dirname_fix [OF this] nr show False by (auto simp: root_of_cases)
      qed
      have "root = '''' \<or> root = root_of (dirname fl)"
        using root by (simp add: root_of_dirname)
      from "1.IH" [OF root_def False None nfix "1.prems"(1) this]
      obtain m' where rec: "mapHas m (dirname fl) root = Inr (included_spec R (dirname fl), m')"
        and ok: "memo_ok R m'" by blast
      have notR: "fl \<notin> R" using "1.prems"(1) None nr by (auto simp: memo_ok_def)
      have eq: "included_spec R fl = included_spec R (dirname fl)"
        using notR by (subst included_spec_step [OF nr]) simp
      have "mapHas m fl r = Inr (included_spec R (dirname fl), m'(fl \<mapsto> included_spec R (dirname fl)))"
        using False None nfix rec by (subst mapHas.simps) (simp add: root_def [symmetric] Let_def)
      moreover have "memo_ok R (m'(fl \<mapsto> included_spec R (dirname fl)))"
        using ok eq by (simp add: memo_ok_upd)
      ultimately show ?thesis using eq by simp
    qed
  qed
qed

lemma requested_map_dom: "requested_map files q = (if q \<in> stripTrailingSlashes ` set files then Some True else None)"
  by (induction files) (auto simp: requested_map_def)

lemma memo_ok_requested: "memo_ok (stripTrailingSlashes ` set files) (requested_map files)"
  by (auto simp: memo_ok_def requested_map_dom included_spec_self split: if_splits)

lemma memo_ok_run: "memo_ok R m \<Longrightarrow> memo_ok R (run_queries m qs)"
proof (induction qs arbitrary: m)
  case Nil
  then show ?case by simp
next
  case (Cons q qs)
  from mapHas_memo [OF Cons.prems, of "''''" q] obtain m' where
    "mapHas m q '''' = Inr (included_spec R q, m')" "memo_ok R m'" by auto
  with Cons.IH show ?case by simp
qed

text \<open>
  C8. For a filter built from the requested paths \<open>files\<close> (trailing slashes
  stripped), and after any earlier queries \<open>qs\<close> on the same filter, \<open>mapHas\<close>
  returns, and its answer for \<open>p\<close> is true exactly when \<open>p\<close> or one of its
  ancestors below the root is a requested path; the walk ends at the root, and a
  path that is its own root is answered false, requested or not. With the requested
  set \<open>{a/b}\<close>: \<open>a/b/c/d\<close> is included, \<open>a/x\<close> and \<open>a\<close> are not.
\<close>

theorem mapHas_included:
  "(\<exists>m'. mapHas (run_queries (requested_map files) qs) p '''' =
      Inr (\<exists>q \<in> set (walk p (root_of p)). q \<in> stripTrailingSlashes ` set files, m')) \<and>
   (p = root_of p \<longrightarrow>
      (\<exists>m'. mapHas (run_queries (requested_map files) qs) p '''' = Inr (False, m'))) \<and>
   (\<exists>m'. mapHas (run_queries (requested_map [''a/b'']) qs) ''a/b/c/d'' '''' = Inr (True, m')) \<and>
   (\<exists>m'. mapHas (run_queries (requested_map [''a/b'']) qs) ''a/x'' '''' = Inr (False, m')) \<and>
   (\<exists>m'. mapHas (run_queries (requested_map [''a/b'']) qs) ''a'' '''' = Inr (False, m'))"
proof -
  have gen: "\<exists>m'. mapHas (run_queries (requested_map fs) qs) x '''' =
      Inr (\<exists>q \<in> set (walk x (root_of x)). q \<in> stripTrailingSlashes ` set fs, m')" for fs x
    using mapHas_memo [OF memo_ok_run [OF memo_ok_requested], of "''''" x fs qs]
    by (auto simp: included_spec_def)
  have root: "\<exists>m'. mapHas (run_queries (requested_map files) qs) p '''' = Inr (False, m')"
    if "p = root_of p"
    using gen [of files p] walk_root [of p] that by simp
  have w1: "walk ''a/b/c/d'' (root_of ''a/b/c/d'') = [''a/b/c/d'', ''a/b/c'', ''a/b'', ''a'']"
    by code_simp
  have w2: "walk ''a/x'' (root_of ''a/x'') = [''a/x'', ''a'']"
    by code_simp
  have w3: "walk ''a'' (root_of ''a'') = [''a'']"
    by code_simp
  have s: "stripTrailingSlashes ''a/b'' = ''a/b''"
    by code_simp
  have e1: "\<exists>m'. mapHas (run_queries (requested_map [''a/b'']) qs) ''a/b/c/d'' '''' = Inr (True, m')"
    using gen [of "[''a/b'']" "''a/b/c/d''"] by (simp add: w1 s)
  have e2: "\<exists>m'. mapHas (run_queries (requested_map [''a/b'']) qs) ''a/x'' '''' = Inr (False, m')"
    using gen [of "[''a/b'']" "''a/x''"] by (simp add: w2 s)
  have e3: "\<exists>m'. mapHas (run_queries (requested_map [''a/b'']) qs) ''a'' '''' = Inr (False, m')"
    using gen [of "[''a/b'']" "''a''"] by (simp add: w3 s)
  from gen [of files p] root e1 e2 e3 show ?thesis by blast
qed

theorem mapHas_included_witness:
  "''.'' = root_of ''.'' \<and>
   (\<exists>m'. mapHas (run_queries (requested_map [''.'', ''a/b/'']) [''a/x'']) ''.'' '''' =
      Inr (False, m'))"
proof -
  have r: "''.'' = root_of ''.''" by code_simp
  with mapHas_included [of "[''.'', ''a/b/'']" "[''a/x'']" "''.''"] show ?thesis
    by blast
qed

section \<open>Properties of the append scan\<close>

lemma read_into_Inr:
  assumes "read_into rd hb bp (512 - bp) pos = Inr (bytes, hb')" "length hb = 512" "bp \<le> 512"
  shows "length hb' = 512" "bp + bytes \<le> 512"
    "\<And>i. i < bp \<Longrightarrow> hb' ! i = hb ! i"
    "\<And>i. bp + bytes \<le> i \<Longrightarrow> i < 512 \<Longrightarrow> hb' ! i = hb ! i"
proof -
  from assms(1) obtain bs where bs: "rd pos (512 - bp) = Inr bs"
    by (auto simp: read_into_def split: sum.splits)
  define d where "d = take (512 - bp) bs"
  from assms(1) bs have b: "bytes = length d"
    and h: "hb' = take bp hb @ d @ drop (bp + bytes) hb"
    by (auto simp: read_into_def Let_def d_def)
  have dl: "length d \<le> 512 - bp" by (simp add: d_def)
  from b dl show le: "bp + bytes \<le> 512" using assms(3) by simp
  from h b le assms(2,3) show "length hb' = 512" by simp
  have lt: "length (take bp hb) = bp" using assms(2,3) by simp
  show "hb' ! i = hb ! i" if "i < bp" for i
    using that lt by (simp add: h nth_append)
  show "hb' ! i = hb ! i" if "bp + bytes \<le> i" "i < 512" for i
  proof -
    have "hb' ! i = (d @ drop (bp + bytes) hb) ! (i - bp)"
      unfolding h using that lt by (simp add: nth_append)
    also have "\<dots> = drop (bp + bytes) hb ! (i - bp - bytes)"
    proof -
      have "\<not> i - bp < length d" using that b by arith
      then show ?thesis by (simp add: nth_append b)
    qed
    also have "\<dots> = hb ! i"
    proof -
      have "bp + bytes + (i - bp - bytes) = i" using that by arith
      moreover have "bp + bytes \<le> length hb" using le assms(2) by simp
      ultimately show ?thesis by (simp add: nth_drop)
    qed
    finally show ?thesis .
  qed
qed

lemma gzip_magic_keep:
  assumes "read_into rd hb bp (512 - bp) pos = Inr (bytes, hb')" "length hb = 512" "bp \<le> 512" "2 \<le> bp"
  shows "gzip_magic hb' = gzip_magic hb"
  using read_into_Inr(3) [OF assms(1-3)] assms(4) by (simp add: gzip_magic_def)

lemma onread_gzip:
  "position = 0 \<Longrightarrow> gzip_magic hb \<Longrightarrow> length hb = 512 \<Longrightarrow> 2 \<le> bp \<Longrightarrow> bp < 512 \<Longrightarrow>
   offset_of (onread rd decode fsize position bp hb cache tr) = None"
proof (induction rd decode fsize position bp hb cache tr rule: onread.induct)
  case (1 rd decode fsize position bufPos headBuf cache tr)
  show ?case
  proof (cases "read_into rd headBuf bufPos (512 - bufPos) (position + bufPos)")
    case (Inl e)
    then show ?thesis by (subst onread.simps) (simp add: offset_of_def)
  next
    case (Inr p)
    obtain bytes hb' where p: "p = (bytes, hb')" by (cases p)
    note r = Inr [unfolded p]
    have le: "bufPos \<le> 512" using "1.prems" by simp
    have g: "gzip_magic hb'"
      using gzip_magic_keep [OF r "1.prems"(3) le "1.prems"(4)] "1.prems"(2) by simp
    have len: "length hb' = 512" using read_into_Inr(1) [OF r "1.prems"(3) le] .
    show ?thesis
    proof (cases "bufPos + bytes < 512 \<and> bytes \<noteq> 0")
      case True
      have "offset_of (onread rd decode fsize position (bufPos + bytes) hb' cache
                 (tr @ [(position + bufPos, 512 - bufPos)])) = None"
        using "1.IH"(1) [OF r refl True "1.prems"(1) g len] "1.prems"(4) True by simp
      then show ?thesis using r True by (subst onread.simps) simp
    next
      case False
      then show ?thesis using r g "1.prems"(1)
        by (subst onread.simps) (auto simp: offset_of_def)
    qed
  qed
qed


lemma onread_fill:
  "bp < 512 \<Longrightarrow> length hb = 512 \<Longrightarrow> gzip_safe position hb bp \<Longrightarrow>
   offset_of (onread rd decode fsize position bp hb cache tr) =
     (case fillSync rd position hb bp tr of
        (FillThrow e, hb', tr') \<Rightarrow> None
      | (FillEof, hb', tr') \<Rightarrow> Some position
      | (FillDone, hb', tr') \<Rightarrow>
          after_header decode fsize position hb'
            (\<lambda>p. offset_of (onread rd decode fsize p 0 hb' (cache_set cache (decode hb')) tr')))"
proof (induction rd position hb bp tr rule: fillSync.induct)
  case (1 rd position headBuf bufPos tr)
  let ?tr1 = "tr @ [(position + bufPos, 512 - bufPos)]"
  show ?case
  proof (cases "read_into rd headBuf bufPos (512 - bufPos) (position + bufPos)")
    case (Inl e)
    then show ?thesis using "1.prems"(1)
      by (subst onread.simps, subst fillSync.simps) (simp add: offset_of_def)
  next
    case (Inr p)
    obtain bytes hb' where p: "p = (bytes, hb')" by (cases p)
    note r = Inr [unfolded p]
    have le: "bufPos \<le> 512" using "1.prems"(1) by simp
    note ri = read_into_Inr [OF r "1.prems"(2) le]
    show ?thesis
    proof (cases "position = 0 \<and> gzip_magic hb'")
      case True
      have two: "2 \<le> bufPos + bytes"
      proof (rule ccontr)
        assume "\<not> 2 \<le> bufPos + bytes"
        then have lt: "bufPos + bytes \<le> 1" "bufPos < 2" by simp_all
        then have "hb' ! 1 = headBuf ! 1" using ri(4) [of 1] by simp
        moreover have "headBuf ! 1 \<noteq> 0x8b"
          using "1.prems"(3) True lt by (simp add: gzip_safe_def)
        ultimately show False using True by (simp add: gzip_magic_def)
      qed
      have lhs: "offset_of (onread rd decode fsize position bufPos headBuf cache tr) = None"
      proof (cases "bufPos + bytes < 512 \<and> bytes \<noteq> 0")
        case c: True
        have "offset_of (onread rd decode fsize position (bufPos + bytes) hb' cache ?tr1) = None"
          using onread_gzip [of position hb' "bufPos + bytes"] True ri(1) two c by simp
        then show ?thesis using r c by (subst onread.simps) simp
      next
        case False
        then show ?thesis using r True by (subst onread.simps) (auto simp: offset_of_def)
      qed
      have rhs: "fst (fillSync rd position headBuf bufPos tr) =
                   FillThrow (Error ''cannot append to compressed archives'')"
        using r True "1.prems"(1) by (subst fillSync.simps) simp
      show ?thesis unfolding lhs using rhs by (auto split: prod.splits fill.splits)
    next
      case ng: False
      show ?thesis
      proof (cases "bytes = 0")
        case True
        have "offset_of (onread rd decode fsize position bufPos headBuf cache tr) = Some position"
          using r ng True "1.prems"(1) by (subst onread.simps) (auto simp: offset_of_def)
        moreover have "fst (fillSync rd position headBuf bufPos tr) = FillEof"
          using r ng True "1.prems"(1) by (subst fillSync.simps) auto
        ultimately show ?thesis by (auto split: prod.splits fill.splits)
      next
        case nz: False
        have fs: "fillSync rd position headBuf bufPos tr =
                    fillSync rd position hb' (bufPos + bytes) ?tr1"
          using r ng nz "1.prems"(1) by (subst fillSync.simps) auto
        show ?thesis
        proof (cases "bufPos + bytes < 512")
          case True
          have safe: "gzip_safe position hb' (bufPos + bytes)"
          proof (cases "position = 0")
            case False
            then show ?thesis by (simp add: gzip_safe_def)
          next
            case p0: True
            show ?thesis
            proof (cases "bufPos + bytes < 2")
              case False
              then show ?thesis using ng p0 by (simp add: gzip_safe_def)
            next
              case b2: True
              then have "hb' ! 1 = headBuf ! 1" using ri(4) [of 1] by simp
              moreover have "headBuf ! 1 \<noteq> 0x8b"
                using "1.prems"(3) p0 b2 by (simp add: gzip_safe_def)
              ultimately show ?thesis using b2 by (simp add: gzip_safe_def)
            qed
          qed
          have "onread rd decode fsize position bufPos headBuf cache tr =
                  onread rd decode fsize position (bufPos + bytes) hb' cache ?tr1"
            using r True nz by (subst onread.simps) simp
          then show ?thesis
            unfolding fs
            using "1.IH" [OF "1.prems"(1) r refl ng nz True ri(1) safe] by simp
        next
          case False
          then have full: "bufPos + bytes = 512" using ri(2) by simp
          have "fillSync rd position hb' (bufPos + bytes) ?tr1 = (FillDone, hb', ?tr1)"
            using full by (subst fillSync.simps) simp
          moreover have "offset_of (onread rd decode fsize position bufPos headBuf cache tr) =
              after_header decode fsize position hb'
                (\<lambda>p. offset_of (onread rd decode fsize p 0 hb' (cache_set cache (decode hb')) ?tr1))"
            using r ng nz full
            by (subst onread.simps) (auto simp: after_header_def Let_def offset_of_def)
          ultimately show ?thesis unfolding fs by simp
        qed
      qed
    qed
  qed
qed

lemma fillSync_length:
  "length hb = 512 \<Longrightarrow> bp \<le> 512 \<Longrightarrow> length (fst (snd (fillSync rd position hb bp tr))) = 512"
proof (induction rd position hb bp tr rule: fillSync.induct)
  case (1 rd position headBuf bufPos tr)
  show ?case
  proof (cases "bufPos < 512")
    case False
    then show ?thesis using "1.prems" by (subst fillSync.simps) simp
  next
    case True
    show ?thesis
    proof (cases "read_into rd headBuf bufPos (512 - bufPos) (position + bufPos)")
      case (Inl e)
      then show ?thesis using True "1.prems" by (subst fillSync.simps) simp
    next
      case (Inr p)
      obtain bytes hb' where p: "p = (bytes, hb')" by (cases p)
      note r = Inr [unfolded p]
      note ri = read_into_Inr [OF r "1.prems"(1) "1.prems"(2)]
      show ?thesis
        using True r ri(1,2) "1.IH" [OF True r refl _ _ ri(1) ri(2)]
        by (subst fillSync.simps) auto
    qed
  qed
qed

lemma scanSync_onread:
  "length hb = 512 \<Longrightarrow> gzip_safe position hb 0 \<Longrightarrow>
   offset_of (scanSync rd decode fsize position hb cache tr) =
     (if position < fsize then offset_of (onread rd decode fsize position 0 hb cache tr)
      else Some position)"
proof (induction rd decode fsize position hb cache tr rule: scanSync.induct)
  case (1 rd decode fsize position headBuf cache tr)
  show ?case
  proof (cases "position < fsize")
    case False
    then show ?thesis by (subst scanSync.simps) (simp add: offset_of_def)
  next
    case True
    obtain f hb' tr' where fl: "fillSync rd position headBuf 0 tr = (f, hb', tr')"
      by (cases "fillSync rd position headBuf 0 tr") auto
    have len': "length hb' = 512"
      using fillSync_length [OF "1.prems"(1), of 0 rd position tr] fl by simp
    note of = onread_fill [OF _ "1.prems"(1) "1.prems"(2), of rd decode fsize cache tr, simplified, unfolded fl]
    show ?thesis
    proof (cases f)
      case (FillThrow e)
      then show ?thesis using True fl of
        by (subst scanSync.simps) (simp add: offset_of_def)
    next
      case FillEof
      then show ?thesis using True fl of
        by (subst scanSync.simps) (simp add: offset_of_def)
    next
      case FillDone
      define h where "h = decode hb'"
      define ebs where "ebs = entryBlockSize (case hsize h of None \<Rightarrow> 0 | Some n \<Rightarrow> n)"
      show ?thesis
      proof (cases "cksumValid h \<and> \<not> position + ebs + 512 > fsize")
        case False
        then show ?thesis using True fl of FillDone
          by (subst scanSync.simps)
             (auto simp: offset_of_def after_header_def Let_def h_def ebs_def)
      next
        case adv: True
        have safe: "gzip_safe (position + ebs + 512) hb' 0" by (simp add: gzip_safe_def)
        have ih: "offset_of (scanSync rd decode fsize (position + ebs + 512) hb' (cache_set cache h) tr') =
            (if position + ebs + 512 < fsize
             then offset_of (onread rd decode fsize (position + ebs + 512) 0 hb' (cache_set cache h) tr')
             else Some (position + ebs + 512))"
        proof -
          have cv: "\<not> \<not> cksumValid h" and nl: "\<not> fsize < position + ebs + 512"
            using adv by simp_all
          show ?thesis
            by (rule "1.IH" [OF True fl [symmetric] FillDone refl h_def cv ebs_def nl len' safe])
        qed
        have "scanSync rd decode fsize position headBuf cache tr =
              scanSync rd decode fsize (position + ebs + 512) hb' (cache_set cache h) tr'"
          using True fl FillDone adv
          by (subst scanSync.simps) (simp add: Let_def h_def ebs_def)
        then show ?thesis using True of FillDone adv ih
          by (auto simp: after_header_def Let_def h_def ebs_def)
      qed
    qed
  qed
qed

text \<open>
  C1. For every reader (whatever bytes, short reads and read errors it produces at
  each position), every header decoder, every file length and every cache, the
  blocking scan of \<open>replaceSync\<close> and \<open>getPos\<close> of \<open>replaceAsync\<close> end with the
  same offset, and one fails exactly when the other does.
\<close>

theorem scan_modes_agree:
  "offset_of (replaceSync_scan rd decode fsize cache) = offset_of (getPos rd decode fsize cache)"
proof -
  have "gzip_safe 0 (replicate 512 0) 0" by (simp add: gzip_safe_def)
  from scanSync_onread [OF _ this, of rd decode fsize cache "[]"]
  show ?thesis by (auto simp: replaceSync_scan_def getPos_def offset_of_def)
qed


text \<open>
  C2. The scan is to record path and mtime of every entry it advances past, the last
  one included, in both modes. The code does so in the blocking scan and not in
  \<open>getPos\<close>: on a file of 512 bytes that holds one valid header (path \<open>a\<close>, size
  0, an mtime) and nothing after it, with an empty cache supplied, both scans advance
  past the entry and end at offset 512; the blocking scan has recorded \<open>a\<close> in the
  cache, while \<open>getPos\<close> has returned on \<open>position >= size\<close> before reaching its
  \<open>mtimeCache.set\<close> and has recorded nothing.
\<close>

theorem mtime_cache_last_entry:
  "fst (replaceSync_scan (file_reader (0x61 # replicate 511 0) whole_reads) example_decode 512
          (Some Map.empty)) = Inr 512 \<and>
   map_option (\<lambda>m. m ''a'')
     (fst (snd (replaceSync_scan (file_reader (0x61 # replicate 511 0) whole_reads) example_decode 512
          (Some Map.empty)))) = Some (Some 1000) \<and>
   fst (getPos (file_reader (0x61 # replicate 511 0) whole_reads) example_decode 512
          (Some Map.empty)) = Inr 512 \<and>
   map_option (\<lambda>m. m ''a'')
     (fst (snd (getPos (file_reader (0x61 # replicate 511 0) whole_reads) example_decode 512
          (Some Map.empty)))) = Some None"
  by code_simp


lemma file_read:
  assumes "length hb = 512" "bp < 512" "\<forall>i<bp. hb ! i = content ! i" "bp \<le> length content"
    "\<forall>p l. 0 < l \<longrightarrow> 0 < chunk p l"
  obtains bytes hb' where
    "read_into (file_reader content chunk) hb bp (512 - bp) bp = Inr (bytes, hb')"
    "length hb' = 512" "bp + bytes \<le> 512" "bp + bytes \<le> length content"
    "\<forall>i<bp + bytes. hb' ! i = content ! i"
    "bytes = 0 \<Longrightarrow> length content = bp"
proof -
  define d where "d = take (512 - bp) (take (chunk bp (512 - bp)) (take (512 - bp) (drop bp content)))"
  define hb' where "hb' = take bp hb @ d @ drop (bp + length d) hb"
  have r: "read_into (file_reader content chunk) hb bp (512 - bp) bp = Inr (length d, hb')"
    by (simp add: read_into_def file_reader_def Let_def d_def hb'_def)
  have le: "bp \<le> 512" using assms(2) by simp
  note ri = read_into_Inr [OF r assms(1) le]
  have dl: "length d = min (chunk bp (512 - bp)) (min (512 - bp) (length content - bp))"
    by (simp add: d_def min.commute min.left_commute)
  have dn: "d ! j = content ! (bp + j)" if "j < length d" for j
    using that assms(4) by (simp add: d_def)
  have c: "bp + length d \<le> length content" using dl assms(4) by arith
  have lt: "length (take bp hb) = bp" using assms(1) le by simp
  have pre: "\<forall>i<bp + length d. hb' ! i = content ! i"
  proof (intro allI impI)
    fix i assume i: "i < bp + length d"
    show "hb' ! i = content ! i"
    proof (cases "i < bp")
      case True
      then show ?thesis using ri(3) [of i] assms(3) by simp
    next
      case False
      then have "hb' ! i = (d @ drop (bp + length d) hb) ! (i - bp)"
        unfolding hb'_def using lt by (simp add: nth_append)
      also have "\<dots> = d ! (i - bp)"
      proof -
        have "i - bp < length d" using i False by arith
        then show ?thesis by (simp add: nth_append)
      qed
      also have "\<dots> = content ! i"
      proof -
        have "i - bp < length d" "bp + (i - bp) = i" using i False by arith+
        with dn [of "i - bp"] show ?thesis by simp
      qed
      finally show ?thesis .
    qed
  qed
  have z: "length content = bp" if "length d = 0"
  proof -
    have "0 < chunk bp (512 - bp)" using assms(2,5) by simp
    with that dl assms(2,4) show ?thesis by arith
  qed
  show ?thesis
    by (rule that [OF r ri(1) ri(2) c pre z])
qed

lemma magic_prefix:
  "\<forall>i<n. hb ! i = content ! i \<Longrightarrow> 2 \<le> n \<Longrightarrow> content ! 0 = 0x1f \<Longrightarrow> content ! 1 = 0x8b \<Longrightarrow>
   gzip_magic hb"
  by (simp add: gzip_magic_def)

lemma onread_gzip_file:
  assumes c: "2 \<le> length content" "content ! 0 = 0x1f" "content ! 1 = 0x8b"
    and ch: "\<forall>p l. 0 < l \<longrightarrow> 0 < chunk p l"
  shows "position = 0 \<Longrightarrow> rd = file_reader content chunk \<Longrightarrow>
    length hb = 512 \<Longrightarrow> bp < 512 \<Longrightarrow> \<forall>i<bp. hb ! i = content ! i \<Longrightarrow> bp \<le> length content \<Longrightarrow>
    reads_in_first_block tr \<Longrightarrow>
    (\<exists>tr'. onread rd decode fsize position bp hb cache tr =
       (Inl (Error ''cannot append to compressed archives''), cache, tr') \<and>
       reads_in_first_block tr')"
proof (induction rd decode fsize position bp hb cache tr rule: onread.induct)
  case (1 rd decode fsize position bufPos headBuf cache tr)
  let ?tr1 = "tr @ [(position + bufPos, 512 - bufPos)]"
  have tr1: "reads_in_first_block ?tr1"
    using "1.prems"(1,4,7) by (simp add: reads_in_first_block_def)
  from file_read [OF "1.prems"(3,4,5,6) ch] obtain bytes hb' where
    r: "read_into (file_reader content chunk) headBuf bufPos (512 - bufPos) bufPos = Inr (bytes, hb')"
    and f: "length hb' = 512" "bufPos + bytes \<le> 512" "bufPos + bytes \<le> length content"
      "\<forall>i<bufPos + bytes. hb' ! i = content ! i" "bytes = 0 \<Longrightarrow> length content = bufPos"
    by blast
  have r': "read_into rd headBuf bufPos (512 - bufPos) (position + bufPos) = Inr (bytes, hb')"
    using r "1.prems"(1,2) by simp
  show ?case
  proof (cases "bufPos + bytes < 512 \<and> bytes \<noteq> 0")
    case True
    have "\<exists>tr'. onread rd decode fsize position (bufPos + bytes) hb' cache ?tr1 =
       (Inl (Error ''cannot append to compressed archives''), cache, tr') \<and>
       reads_in_first_block tr'"
      using True by (intro "1.IH"(1) [OF r' refl True "1.prems"(1,2) f(1) _ f(4) f(3) tr1]) simp
    then show ?thesis using r' True by (subst onread.simps) simp
  next
    case False
    have "2 \<le> bufPos + bytes"
    proof (cases "bytes = 0")
      case True
      then show ?thesis using f(5) c(1) by simp
    next
      case nz: False
      with False f(2) show ?thesis by simp
    qed
    from magic_prefix [OF f(4) this c(2,3)] have "gzip_magic hb'" .
    then show ?thesis using r' False "1.prems"(1) tr1
      by (subst onread.simps) auto
  qed
qed

lemma fillSync_gzip_file:
  assumes c: "2 \<le> length content" "content ! 0 = 0x1f" "content ! 1 = 0x8b"
    and ch: "\<forall>p l. 0 < l \<longrightarrow> 0 < chunk p l"
  shows "position = 0 \<Longrightarrow> rd = file_reader content chunk \<Longrightarrow>
    length hb = 512 \<Longrightarrow> bp < 512 \<Longrightarrow> \<forall>i<bp. hb ! i = content ! i \<Longrightarrow> bp \<le> length content \<Longrightarrow>
    reads_in_first_block tr \<Longrightarrow>
    (\<exists>hb' tr'. fillSync rd position hb bp tr =
       (FillThrow (Error ''cannot append to compressed archives''), hb', tr') \<and>
       reads_in_first_block tr')"
proof (induction rd position hb bp tr rule: fillSync.induct)
  case (1 rd position headBuf bufPos tr)
  let ?tr1 = "tr @ [(position + bufPos, 512 - bufPos)]"
  have tr1: "reads_in_first_block ?tr1"
    using "1.prems"(1,4,7) by (simp add: reads_in_first_block_def)
  from file_read [OF "1.prems"(3,4,5,6) ch] obtain bytes hb' where
    r: "read_into (file_reader content chunk) headBuf bufPos (512 - bufPos) bufPos = Inr (bytes, hb')"
    and f: "length hb' = 512" "bufPos + bytes \<le> 512" "bufPos + bytes \<le> length content"
      "\<forall>i<bufPos + bytes. hb' ! i = content ! i" "bytes = 0 \<Longrightarrow> length content = bufPos"
    by blast
  have r': "read_into rd headBuf bufPos (512 - bufPos) (position + bufPos) = Inr (bytes, hb')"
    using r "1.prems"(1,2) by simp
  show ?case
  proof (cases "gzip_magic hb'")
    case True
    then show ?thesis using r' "1.prems"(1,4) tr1 by (subst fillSync.simps) simp
  next
    case False
    have lt2: "bufPos + bytes < 2"
    proof (rule ccontr)
      assume "\<not> bufPos + bytes < 2"
      then have "2 \<le> bufPos + bytes" by simp
      from magic_prefix [OF f(4) this c(2,3)] False show False by simp
    qed
    have nz: "bytes \<noteq> 0"
    proof
      assume "bytes = 0"
      from f(5) [OF this] lt2 c(1) show False by simp
    qed
    have ng: "\<not> (position = 0 \<and> gzip_magic hb')" using False by simp
    have lt: "bufPos + bytes < 512" using lt2 by simp
    have "\<exists>hb'' tr'. fillSync rd position hb' (bufPos + bytes) ?tr1 =
       (FillThrow (Error ''cannot append to compressed archives''), hb'', tr') \<and>
       reads_in_first_block tr'"
      by (rule "1.IH" [OF "1.prems"(4) r' refl ng nz "1.prems"(1,2) f(1) lt f(4) f(3) tr1])
    then show ?thesis using r' False nz "1.prems"(4) by (subst fillSync.simps) simp
  qed
qed

text \<open>
  What both modes do on a file that starts with the bytes 0x1f 0x8b, however the
  system cuts its reads into pieces (each read of a positive length hands over at
  least one byte while bytes are left): the scan fails with the error \<open>cannot append
  to compressed archives\<close>, leaves the cache as it was, and reads nothing outside the
  first 512-byte block.
\<close>

lemma gzip_scan_stays_in_first_block:
  assumes "2 \<le> length content" "content ! 0 = 0x1f" "content ! 1 = 0x8b"
    and "\<forall>p l. 0 < l \<longrightarrow> 0 < chunk p l"
  shows
   "(\<exists>tr. replaceSync_scan (file_reader content chunk) decode (length content) cache =
        (Inl (Error ''cannot append to compressed archives''), cache, tr) \<and>
      reads_in_first_block tr) \<and>
    (\<exists>tr. getPos (file_reader content chunk) decode (length content) cache =
        (Inl (Error ''cannot append to compressed archives''), cache, tr) \<and>
      reads_in_first_block tr)"
proof -
  have z: "length (replicate 512 (0::byte)) = 512" "(0::nat) < 512"
    "\<forall>i<0. replicate 512 (0::byte) ! i = content ! i" "0 \<le> length content"
    "reads_in_first_block []"
    by (simp_all add: reads_in_first_block_def)
  from fillSync_gzip_file [OF assms refl refl z]
  obtain hb' tr' where "fillSync (file_reader content chunk) 0 (replicate 512 0) 0 [] =
       (FillThrow (Error ''cannot append to compressed archives''), hb', tr')"
       "reads_in_first_block tr'" by blast
  then have s: "\<exists>tr. replaceSync_scan (file_reader content chunk) decode (length content) cache =
        (Inl (Error ''cannot append to compressed archives''), cache, tr) \<and>
      reads_in_first_block tr"
    using assms(1) unfolding replaceSync_scan_def by (subst scanSync.simps) auto
  from onread_gzip_file [OF assms refl refl z, of decode "length content" cache]
  have a: "\<exists>tr. getPos (file_reader content chunk) decode (length content) cache =
        (Inl (Error ''cannot append to compressed archives''), cache, tr) \<and>
      reads_in_first_block tr"
    using assms(1) by (auto simp: getPos_def)
  from s a show ?thesis by blast
qed

text \<open>
  C7. A file that starts with 0x1f 0x8b is to make the append fail with the
  compressed-archive error before any further byte is read, in both modes. The
  blocking scan does: its check follows every read, and it throws right after the read
  that brings in the second magic byte. \<open>getPos\<close> does not: its check comes only
  after the branch that reads on, so it goes on reading until the block is full or the
  file ends. On the 4-byte file 0x1f 0x8b 0x08 0x00, read one byte at a time, the
  blocking scan makes 2 reads and \<open>getPos\<close> makes 5: three more after both magic
  bytes are in the buffer, two of which read the bytes 0x08 and 0x00. When a read
  after the first two bytes fails, the blocking scan has already failed with the
  compressed-archive error, and \<open>getPos\<close> fails with the read error instead.
\<close>

theorem getPos_reads_after_magic:
  "fst (replaceSync_scan (file_reader [0x1f, 0x8b, 8, 0] (\<lambda>pos len. 1)) example_decode 4 None) =
     Inl (Error ''cannot append to compressed archives'') \<and>
   snd (snd (replaceSync_scan (file_reader [0x1f, 0x8b, 8, 0] (\<lambda>pos len. 1)) example_decode 4 None)) =
     [(0, 512), (1, 511)] \<and>
   fst (getPos (file_reader [0x1f, 0x8b, 8, 0] (\<lambda>pos len. 1)) example_decode 4 None) =
     Inl (Error ''cannot append to compressed archives'') \<and>
   snd (snd (getPos (file_reader [0x1f, 0x8b, 8, 0] (\<lambda>pos len. 1)) example_decode 4 None)) =
     [(0, 512), (1, 511), (2, 510), (3, 509), (4, 508)] \<and>
   fst (replaceSync_scan (\<lambda>pos len. if pos = 0 then Inr [0x1f, 0x8b] else Inl (IOError ''EIO''))
          example_decode 4 None) = Inl (Error ''cannot append to compressed archives'') \<and>
   fst (getPos (\<lambda>pos len. if pos = 0 then Inr [0x1f, 0x8b] else Inl (IOError ''EIO''))
          example_decode 4 None) = Inl (IOError ''EIO'')"
  by code_simp

section \<open>Properties of the command\<close>

text \<open>
  C6. When no destination file is configured, or the gzip or the brotli option is
  set, or the file name ends in \<open>.br\<close> or \<open>.tbr\<close>, or the list of entries is
  absent or empty, the validation of \<open>replace\<close> throws a TypeError, the command
  fails with that error in either mode, and no file-system call has been made: the
  list of I/O events is empty and the cache is untouched.
\<close>

theorem replace_validates_first:
  "opt_file opt = None \<or> opt_gzip opt \<or> opt_brotli opt \<or>
   (\<exists>f. opt_file opt = Some f \<and> (endsWith f ''.br'' \<or> endsWith f ''.tbr'')) \<or>
   entries = None \<or> entries = Some [] \<Longrightarrow>
   \<exists>msg. replace_validate opt entries = Some (TypeError msg) \<and>
         replace decode fs opt entries = (Inl (TypeError msg), opt_mtimeCache opt, [])"
  by (auto simp: replace_def replace_validate_def split: option.splits)

theorem replace_validates_first_witness:
  "(opt_file \<lparr>opt_file = Some ''backup.tbr'', opt_sync = True, opt_gzip = False,
               opt_brotli = False, opt_mtimeCache = None\<rparr> = None \<or>
    opt_gzip \<lparr>opt_file = Some ''backup.tbr'', opt_sync = True, opt_gzip = False,
               opt_brotli = False, opt_mtimeCache = None\<rparr> \<or>
    opt_brotli \<lparr>opt_file = Some ''backup.tbr'', opt_sync = True, opt_gzip = False,
               opt_brotli = False, opt_mtimeCache = None\<rparr> \<or>
    (\<exists>f. opt_file \<lparr>opt_file = Some ''backup.tbr'', opt_sync = True, opt_gzip = False,
               opt_brotli = False, opt_mtimeCache = None\<rparr> = Some f \<and>
         (endsWith f ''.br'' \<or> endsWith f ''.tbr'')) \<or>
    Some [''a.txt''] = None \<or> Some [''a.txt''] = Some []) \<and>
   (\<exists>msg. replace_validate \<lparr>opt_file = Some ''backup.tbr'', opt_sync = True, opt_gzip = False,
               opt_brotli = False, opt_mtimeCache = None\<rparr> (Some [''a.txt'']) =
             Some (TypeError msg) \<and>
          replace example_decode
            \<lparr>open_rw = Inr (), open_create = Inr (), fstat_size = Inr 0,
             read_at = file_reader [] whole_reads\<rparr>
            \<lparr>opt_file = Some ''backup.tbr'', opt_sync = True, opt_gzip = False,
               opt_brotli = False, opt_mtimeCache = None\<rparr> (Some [''a.txt'']) =
             (Inl (TypeError msg),
              opt_mtimeCache \<lparr>opt_file = Some ''backup.tbr'', opt_sync = True, opt_gzip = False,
               opt_brotli = False, opt_mtimeCache = None\<rparr>, []))"
proof -
  let ?opt = "\<lparr>opt_file = Some ''backup.tbr'', opt_sync = True, opt_gzip = False,
               opt_brotli = False, opt_mtimeCache = None\<rparr>"
  have h: "opt_file ?opt = None \<or> opt_gzip ?opt \<or> opt_brotli ?opt \<or>
    (\<exists>f. opt_file ?opt = Some f \<and> (endsWith f ''.br'' \<or> endsWith f ''.tbr'')) \<or>
    Some [''a.txt''] = None \<or> Some [''a.txt''] = Some []"
    by (simp add: endsWith_def)
  from replace_validates_first [OF h] h show ?thesis
    by - (rule conjI, assumption, assumption)
qed

section \<open>Properties of the entry\<close>

lemma Entry_read_paused [simp]: "paused (Entry_read e) = paused e"
  by (simp add: Entry_read_def Let_def emit_def split: option.splits)

lemma Entry_read_remaining [simp]: "remaining (Entry_read e) = remaining e"
  by (simp add: Entry_read_def Let_def emit_def split: option.splits)

lemma Entry_read_ending [simp]: "ending (Entry_read e) = ending e"
  by (simp add: Entry_read_def Let_def emit_def split: option.splits)

lemma Entry_read_errorListener [simp]: "errorListener (Entry_read e) = errorListener e"
  by (simp add: Entry_read_def Let_def emit_def split: option.splits)

lemma Entry_read_wf: "wf_queue e \<Longrightarrow> wf_queue (Entry_read e)"
  by (auto simp: Entry_read_def Let_def emit_def wf_queue_def split: option.splits)

lemma sum_list_drop_Suc:
  "i < length xs \<Longrightarrow> sum_list (map length (drop i xs)) = length (xs ! i) + sum_list (map length (drop (Suc i) xs))"
  by (simp add: Cons_nth_drop_Suc [symmetric])

lemma Entry_read_bytes:
  "wf_queue e \<Longrightarrow>
   delivered_bytes (Entry_read e) + pending_bytes (Entry_read e) = delivered_bytes e + pending_bytes e"
  by (auto simp: Entry_read_def Let_def emit_def wf_queue_def delivered_bytes_def pending_bytes_def
        queue_at_def sum_list_drop_Suc split: option.splits)

lemma js_slice0_length: "0 \<le> r \<Longrightarrow> r < int (length c) \<Longrightarrow> int (length (js_slice0 c r)) = r"
  by (simp add: js_slice0_def)

lemma push_wf: "wf_queue e \<Longrightarrow> wf_queue (e\<lparr>queue := queue e @ [c], queueLen := queueLen e + 1\<rparr>)"
  by (simp add: wf_queue_def)

lemma push_pending:
  "wf_queue e \<Longrightarrow>
   pending_bytes (e\<lparr>queue := queue e @ [c], queueLen := queueLen e + 1\<rparr>) = pending_bytes e + length c"
  by (simp add: wf_queue_def pending_bytes_def)

lemma wf_queue_cong [simp]:
  "wf_queue (e\<lparr>needDrain := b\<rparr>) = wf_queue e"
  "wf_queue (e\<lparr>ending := b\<rparr>) = wf_queue e"
  "wf_queue (e\<lparr>paused := b\<rparr>) = wf_queue e"
  "wf_queue (e\<lparr>remaining := v\<rparr>) = wf_queue e"
  "wf_queue (emit e ev) = wf_queue e"
  by (simp_all add: wf_queue_def emit_def)

lemma pending_cong [simp]:
  "pending_bytes (e\<lparr>needDrain := b\<rparr>) = pending_bytes e"
  "pending_bytes (e\<lparr>ending := b\<rparr>) = pending_bytes e"
  "pending_bytes (e\<lparr>paused := b\<rparr>) = pending_bytes e"
  "pending_bytes (e\<lparr>remaining := v\<rparr>) = pending_bytes e"
  "pending_bytes (emit e ev) = pending_bytes e"
  by (simp_all add: pending_bytes_def emit_def)

lemma delivered_cong [simp]:
  "delivered_bytes (e\<lparr>needDrain := b\<rparr>) = delivered_bytes e"
  "delivered_bytes (e\<lparr>ending := b\<rparr>) = delivered_bytes e"
  "delivered_bytes (e\<lparr>paused := b\<rparr>) = delivered_bytes e"
  "delivered_bytes (e\<lparr>remaining := v\<rparr>) = delivered_bytes e"
  "delivered_bytes (e\<lparr>queue := q, queueLen := l\<rparr>) = delivered_bytes e"
  "delivered_bytes (emit e EvPause) = delivered_bytes e"
  "delivered_bytes (emit e EvResume) = delivered_bytes e"
  "delivered_bytes (emit e (EvError er)) = delivered_bytes e"
  by (simp_all add: delivered_bytes_def emit_def)

lemma remaining_emit [simp]: "remaining (emit e ev) = remaining e"
  by (simp add: emit_def)

lemma stream_inv_read: "stream_inv n e \<Longrightarrow> stream_inv n (Entry_read e)"
  using Entry_read_wf [of e] Entry_read_bytes [of e]
  by (auto simp: stream_inv_def)

lemma stream_inv_flags [simp]:
  "stream_inv n (e\<lparr>needDrain := b\<rparr>) = stream_inv n e"
  "stream_inv n (e\<lparr>ending := b\<rparr>) = stream_inv n e"
  "stream_inv n (e\<lparr>paused := b\<rparr>) = stream_inv n e"
  "stream_inv n (emit e EvPause) = stream_inv n e"
  "stream_inv n (emit e EvResume) = stream_inv n e"
  "stream_inv n (emit e (EvError er)) = stream_inv n e"
  by (simp_all add: stream_inv_def)

lemma stream_inv_push:
  assumes "stream_inv n e"
  shows "stream_inv n
     (let c1 = (case num_of (remaining e) of
                    Some r \<Rightarrow> if int (length c) > r then js_slice0 c r else c
                  | None \<Rightarrow> c);
          e2 = e\<lparr>remaining :=
                      Some (case num_of (remaining e) of
                              Some r \<Rightarrow> JNum (r - int (length c1))
                            | None \<Rightarrow> JNaN)\<rparr>
      in e2\<lparr>queue := queue e2 @ [c1], queueLen := queueLen e2 + 1\<rparr>)"
proof -
  from assms obtain r where wf: "wf_queue e" and r: "remaining e = Some (JNum r)" "0 \<le> r"
    and tot: "int (delivered_bytes e) + int (pending_bytes e) + r = n"
    by (auto simp: stream_inv_def)
  define c1 where "c1 = (if int (length c) > r then js_slice0 c r else c)"
  have len: "int (length c1) \<le> r"
    using r(2) by (auto simp: c1_def js_slice0_length)
  define e2 where "e2 = e\<lparr>remaining := Some (JNum (r - int (length c1)))\<rparr>"
  have wf2: "wf_queue e2" using wf by (simp add: e2_def)
  have "stream_inv n (e2\<lparr>queue := queue e2 @ [c1], queueLen := queueLen e2 + 1\<rparr>)"
    unfolding stream_inv_def
    using push_wf [OF wf2, of c1] push_pending [OF wf2, of c1] len tot
    by (simp add: e2_def)
  then show ?thesis
    by (simp add: r num_of_def c1_def e2_def Let_def)
qed

lemma stream_inv_write: "stream_inv n e \<Longrightarrow> stream_inv n (snd (Entry_write e c))"
proof -
  assume inv: "stream_inv n e"
  show ?thesis
  proof (cases "ending e \<or> (remaining e = Some (JNum 0) \<and> \<not> errorListener e)")
    case True
    then show ?thesis using inv by (auto simp: Entry_write_def)
  next
    case False
    define e1 where "e1 = (if remaining e = Some (JNum 0)
                  then emit e (EvError (Error ''invalid bytes past eof'')) else e)"
    have i1: "stream_inv n e1" using inv by (simp add: e1_def)
    from stream_inv_read [OF stream_inv_push [OF i1, of c]] False inv
    show ?thesis
      by (auto simp: Entry_write_def Let_def e1_def [symmetric])
  qed
qed

lemma stream_inv_end: "stream_inv n e \<Longrightarrow> stream_inv n (snd (Entry_end e c))"
proof (cases c)
  case None
  assume "stream_inv n e"
  then have "stream_inv n (Entry_read (e\<lparr>ending := True\<rparr>))"
    by (intro stream_inv_read) simp
  with None show ?thesis by (simp add: Entry_end_def)
next
  case (Some ch)
  assume "stream_inv n e"
  from stream_inv_write [OF this, of ch] have w: "stream_inv n (snd (Entry_write e ch))" .
  then have "stream_inv n (Entry_read ((snd (Entry_write e ch))\<lparr>ending := True\<rparr>))"
    by (intro stream_inv_read) simp
  with w Some show ?thesis
    by (auto simp: Entry_end_def split: prod.splits sum.splits)
qed

lemma stream_inv_call: "stream_inv n e \<Longrightarrow> stream_inv n (run_call e c)"
proof (cases c)
  case (Write x)
  assume "stream_inv n e"
  with Write show ?thesis by (simp add: stream_inv_write)
next
  case (End x)
  assume "stream_inv n e"
  with End show ?thesis by (simp add: stream_inv_end)
next
  case Pause
  assume "stream_inv n e"
  with Pause show ?thesis by (simp add: Entry_pause_def)
next
  case Resume
  assume "stream_inv n e"
  then have "stream_inv n (Entry_read ((emit e EvResume)\<lparr>paused := False\<rparr>))"
    by (intro stream_inv_read) simp
  with Resume show ?thesis by (simp add: Entry_resume_def Let_def)
qed

lemma stream_inv_calls: "stream_inv n e \<Longrightarrow> stream_inv n (run_calls e cs)"
  unfolding run_calls_def
  by (induction cs arbitrary: e) (simp_all add: stream_inv_call)


lemma foldl_layer_apply:
  "foldl (\<lambda>p f. case obj_get layer f of None \<Rightarrow> p | Some v \<Rightarrow> p(f \<mapsto> v)) p ks f =
     (if f \<in> set ks then (case obj_get layer f of Some v \<Rightarrow> Some v | None \<Rightarrow> p f) else p f)"
  by (induction ks arbitrary: p) (auto split: option.splits)

lemma header_props_apply:
  "header_props tf hdr p0 f =
     (if f \<in> set tf then (case obj_get hdr f of Some v \<Rightarrow> Some v | None \<Rightarrow> p0 f) else p0 f)"
  unfolding header_props_def by (rule foldl_layer_apply)

lemma obj_get_key: "obj_get layer f = Some v \<Longrightarrow> f \<in> set (obj_keys layer)"
  by (auto simp: obj_get_def obj_keys_def split: option.splits dest: map_of_SomeD intro: rev_image_eqI)

lemma overlay_apply:
  "overlay p layer f = (case obj_get layer f of Some v \<Rightarrow> Some v | None \<Rightarrow> p f)"
  unfolding overlay_def foldl_layer_apply
  by (auto split: option.splits dest: obj_get_key)

lemma date_fields_apply:
  "date_fields p f =
     (if f = ''mtime'' \<or> f = ''ctime'' \<or> f = ''atime'' then map_option to_date (p f) else p f)"
  by (auto simp: date_fields_def split: option.splits)

lemma merge_layers_apply:
  "props e = Map.empty \<Longrightarrow> f \<in> set tf \<Longrightarrow>
   merge_layers tf e f = merged (header e) (global e) (extended e) f"
  by (simp add: merge_layers_def overlay_apply header_props_apply merged_def split: option.splits)


lemma Entry_Inr:
  "Entry tf types hdr ext glo = Inr e \<Longrightarrow>
   (case glo of None \<Rightarrow> [] | Some g \<Rightarrow> g) = [] \<and> e = Entry_setProps tf types (Entry_init hdr ext)"
  by (auto simp: Entry_def obj_keys_def split: if_splits)

lemma Entry_init_fields:
  "props (Entry_init hdr ext) = Map.empty"
  "header (Entry_init hdr ext) = hdr"
  "global (Entry_init hdr ext) = []"
  "extended (Entry_init hdr ext) = (case ext of None \<Rightarrow> [] | Some x \<Rightarrow> x)"
  "queue (Entry_init hdr ext) = []"
  "index (Entry_init hdr ext) = 0"
  "queueLen (Entry_init hdr ext) = 0"
  "events (Entry_init hdr ext) = []"
  by (simp_all add: Entry_init_def)

lemma setProps_fields:
  "queue (Entry_setProps tf types e) = queue e"
  "index (Entry_setProps tf types e) = index e"
  "queueLen (Entry_setProps tf types e) = queueLen e"
  "events (Entry_setProps tf types e) = events e"
  "remaining (Entry_setProps tf types e) = props (Entry_setProps tf types e) ''size''"
  "etype (Entry_setProps tf types e) = classify types (props (Entry_setProps tf types e) ''type'')"
  by (simp_all add: Entry_setProps_def Let_def)

lemma setProps_props:
  "props e = Map.empty \<Longrightarrow> f \<in> set tf \<Longrightarrow>
   props (Entry_setProps tf types e) f =
     (if f = ''mtime'' \<or> f = ''ctime'' \<or> f = ''atime''
      then map_option to_date (merged (header e) (global e) (extended e) f)
      else merged (header e) (global e) (extended e) f)"
  by (simp add: Entry_setProps_def Let_def date_fields_apply merge_layers_apply)

text \<open>
  C9. The merge of \<open>_setProps\<close> on an entry whose \<open>props\<close> is still empty (as the
  constructor leaves it): for every field \<open>f\<close> of the field table, the merged value
  is the extended value when that is defined, else the global value when that is
  defined, else the header's value. What \<open>_setProps\<close> stores in \<open>props\<close> is this
  merged value, converted to a date for the three time fields.
\<close>

theorem setProps_merge:
  "props e = Map.empty \<Longrightarrow> f \<in> set tf \<Longrightarrow>
   merge_layers tf e f =
     (case obj_get (extended e) f of
        Some v \<Rightarrow> Some v
      | None \<Rightarrow> (case obj_get (global e) f of Some v \<Rightarrow> Some v | None \<Rightarrow> obj_get (header e) f)) \<and>
   props (Entry_setProps tf types e) f =
     (if f = ''mtime'' \<or> f = ''ctime'' \<or> f = ''atime''
      then map_option to_date (merge_layers tf e f) else merge_layers tf e f)"
  by (simp add: merge_layers_apply merged_def Entry_setProps_def Let_def date_fields_apply)

theorem setProps_merge_witness:
  "props ((Entry_init [(''size'', Some (JNum 1)), (''mtime'', Some (JNum 7))] (Some [(''mtime'', Some (JNum 9))]))
            \<lparr>global := [(''size'', Some (JNum 2)), (''mtime'', Some (JNum 8))]\<rparr>) = Map.empty \<and>
   ''size'' \<in> set tar_fields \<and>
   merge_layers tar_fields
     ((Entry_init [(''size'', Some (JNum 1)), (''mtime'', Some (JNum 7))] (Some [(''mtime'', Some (JNum 9))]))
            \<lparr>global := [(''size'', Some (JNum 2)), (''mtime'', Some (JNum 8))]\<rparr>) ''size'' = Some (JNum 2) \<and>
   props (Entry_setProps tar_fields tar_types
     ((Entry_init [(''size'', Some (JNum 1)), (''mtime'', Some (JNum 7))] (Some [(''mtime'', Some (JNum 9))]))
            \<lparr>global := [(''size'', Some (JNum 2)), (''mtime'', Some (JNum 8))]\<rparr>)) ''size'' = Some (JNum 2)"
proof -
  let ?e = "(Entry_init [(''size'', Some (JNum 1)), (''mtime'', Some (JNum 7))] (Some [(''mtime'', Some (JNum 9))]))
            \<lparr>global := [(''size'', Some (JNum 2)), (''mtime'', Some (JNum 8))]\<rparr>"
  have p: "props ?e = Map.empty" by (simp add: Entry_init_def)
  have f: "''size'' \<in> set tar_fields" by (simp add: tar_fields_def)
  from setProps_merge [OF p f, of tar_types] p f show ?thesis
    by (simp add: Entry_init_def obj_get_def)
qed

lemma setProps_remaining:
  "props e = Map.empty \<Longrightarrow> ''size'' \<in> set tf \<Longrightarrow>
   remaining (Entry_setProps tf types e) = merged (header e) (global e) (extended e) ''size''"
  using setProps_props [of e "''size''" tf types] by (simp add: setProps_fields)

text \<open>
  C4. An entry constructed from a header, extended metadata and global metadata is to
  have its remaining-bytes counter seeded from the merged size, 0 when no layer has
  one. \<open>_setProps\<close> does seed the counter from the merged size of the three layers
  (\<open>setProps_remaining\<close>), but the constructor never hands it a global layer: the
  copy that is meant to freeze the global layer throws on its first key. With size 1 in
  the header and size 2 in the global layer the constructor throws a TypeError, where
  \<open>_setProps\<close> on the entry with that global layer gives the counter 2. And when no
  layer has a size, the 0 the constructor stored is overwritten by \<open>props.size\<close>,
  which is undefined.
\<close>

theorem Entry_global_layer_throws:
  "Entry tar_fields tar_types [(''size'', Some (JNum 1))] None (Some [(''size'', Some (JNum 2))]) =
     Inl (TypeError ''Cannot set properties of undefined'') \<and>
   remaining (Entry_setProps tar_fields tar_types
     ((Entry_init [(''size'', Some (JNum 1))] None)\<lparr>global := [(''size'', Some (JNum 2))]\<rparr>)) =
     Some (JNum 2) \<and>
   map_sum id remaining
     (Entry tar_fields tar_types [(''path'', Some (JStr ''a'')), (''type'', Some (JStr ''0''))] None None)
   = Inr None"
proof (intro conjI)
  show "Entry tar_fields tar_types [(''size'', Some (JNum 1))] None (Some [(''size'', Some (JNum 2))]) =
     Inl (TypeError ''Cannot set properties of undefined'')"
    by (simp add: Entry_def obj_keys_def)
  show "remaining (Entry_setProps tar_fields tar_types
     ((Entry_init [(''size'', Some (JNum 1))] None)\<lparr>global := [(''size'', Some (JNum 2))]\<rparr>)) =
     Some (JNum 2)"
    by (simp add: setProps_remaining Entry_init_def tar_fields_def merged_def obj_get_def)
  show "map_sum id remaining
     (Entry tar_fields tar_types [(''path'', Some (JStr ''a'')), (''type'', Some (JStr ''0''))] None None)
   = Inr None"
    by (simp add: Entry_def Entry_init_def Entry_setProps_def Let_def obj_keys_def merge_layers_def
      header_props_def overlay_def date_fields_def obj_get_def tar_fields_def)
qed

text \<open>
  C5, as the claim states it, fails: the \<open>switch\<close> ends in a \<open>default\<close> branch, and
  a flag whose name is none of the listed ones passes through it. The pax extended
  header flag \<open>x\<close> gives the entry the type \<open>ExtendedHeader\<close>, which is none of
  the outcomes the claim lists.
\<close>

theorem classify_counterexample:
  "map_sum id etype (Entry tar_fields tar_types [(''type'', Some (JStr ''x''))] None None) =
     Inr ''ExtendedHeader'' \<and>
   ''ExtendedHeader'' \<notin> set [''File'', ''Directory'', ''Unknown'', ''Link'', ''SymbolicLink'',
                              ''CharacterDevice'', ''BlockDevice'', ''FIFO'']"
  by (simp add: Entry_def Entry_init_def Entry_setProps_def Let_def obj_keys_def merge_layers_def
      header_props_def overlay_def date_fields_def obj_get_def tar_fields_def classify_def tar_types_def)

text \<open>
  C5, amended. The type of a constructed entry is a total function of the merged
  \<open>type\<close> field: \<open>Unknown\<close> when the table does not know the flag (or the flag is
  absent), \<open>File\<close> for \<open>OldFile\<close> and \<open>ContiguousFile\<close>, \<open>Directory\<close> for
  \<open>GNUDumpDir\<close>, and for every other name of the table, the six listed ones and
  any further one alike, the name itself.
\<close>

theorem Entry_type:
  "Entry tf types hdr ext glo = Inr e \<Longrightarrow> ''type'' \<in> set tf \<Longrightarrow>
   etype e =
     (case types (merged hdr (case glo of None \<Rightarrow> [] | Some g \<Rightarrow> g)
                    (case ext of None \<Rightarrow> [] | Some x \<Rightarrow> x) ''type'') of
        None \<Rightarrow> ''Unknown''
      | Some n \<Rightarrow>
          if n = ''OldFile'' \<or> n = ''ContiguousFile'' then ''File''
          else if n = ''GNUDumpDir'' then ''Directory''
          else n)"
proof -
  assume a: "Entry tf types hdr ext glo = Inr e" and s: "''type'' \<in> set tf"
  from Entry_Inr [OF a] have
    g: "(case glo of None \<Rightarrow> [] | Some g \<Rightarrow> g) = []" and
    e: "e = Entry_setProps tf types (Entry_init hdr ext)"
    by auto
  have "etype e = classify types (merged hdr [] (case ext of None \<Rightarrow> [] | Some x \<Rightarrow> x) ''type'')"
    unfolding e setProps_fields
    using setProps_props [OF Entry_init_fields(1) s]
    by (simp add: Entry_init_fields)
  then show ?thesis
    unfolding g by (simp add: classify_def split: option.splits)
qed

theorem Entry_type_witness:
  "Entry tar_fields tar_types [(''type'', Some (JStr ''7''))] (Some [(''type'', Some (JStr ''D''))]) None =
     Inr (Entry_setProps tar_fields tar_types
            (Entry_init [(''type'', Some (JStr ''7''))] (Some [(''type'', Some (JStr ''D''))]))) \<and>
   ''type'' \<in> set tar_fields \<and>
   etype (Entry_setProps tar_fields tar_types
            (Entry_init [(''type'', Some (JStr ''7''))] (Some [(''type'', Some (JStr ''D''))]))) = ''Directory''"
proof -
  have a: "Entry tar_fields tar_types [(''type'', Some (JStr ''7''))] (Some [(''type'', Some (JStr ''D''))]) None =
     Inr (Entry_setProps tar_fields tar_types
            (Entry_init [(''type'', Some (JStr ''7''))] (Some [(''type'', Some (JStr ''D''))])))"
    by (simp add: Entry_def obj_keys_def)
  have f: "''type'' \<in> set tar_fields" by (simp add: tar_fields_def)
  from Entry_type [OF a f] a f show ?thesis
    by (simp add: merged_def obj_get_def tar_types_def)
qed

text \<open>
  C3, as the claim states it, fails: \<open>resume()\<close> returns
  \<open>_queueLen - _index > 1\<close>. An entry of size 2 is paused and given two chunks;
  \<open>resume()\<close> delivers the first and returns false while the second is still queued.
\<close>

theorem Entry_resume_counterexample:
  "Entry tar_fields tar_types [(''size'', Some (JNum 2))] None None =
     Inr (Entry_setProps tar_fields tar_types (Entry_init [(''size'', Some (JNum 2))] None)) \<and>
   \<not> fst (Entry_resume (run_calls
           (Entry_setProps tar_fields tar_types (Entry_init [(''size'', Some (JNum 2))] None))
           [Pause, Write [1], Write [2]])) \<and>
   drop (index (snd (Entry_resume (run_calls
           (Entry_setProps tar_fields tar_types (Entry_init [(''size'', Some (JNum 2))] None))
           [Pause, Write [1], Write [2]]))))
        (queue (snd (Entry_resume (run_calls
           (Entry_setProps tar_fields tar_types (Entry_init [(''size'', Some (JNum 2))] None))
           [Pause, Write [1], Write [2]])))) = [[2]]"
proof (intro conjI)
  show "Entry tar_fields tar_types [(''size'', Some (JNum 2))] None None =
     Inr (Entry_setProps tar_fields tar_types (Entry_init [(''size'', Some (JNum 2))] None))"
    by (simp add: Entry_def obj_keys_def)
qed code_simp+

text \<open>
  C3, amended. \<open>resume()\<close> clears the paused flag, makes one delivery attempt, and
  returns true exactly when \<open>_queueLen - _index\<close> is at least 2 on return: when the
  queue bookkeeping is consistent, exactly when at least two chunks are still
  undelivered.
\<close>

theorem Entry_resume_result:
  "Entry_resume e = (r, e') \<Longrightarrow>
   \<not> paused e' \<and> e' = Entry_read ((emit e EvResume)\<lparr>paused := False\<rparr>) \<and>
   (r \<longleftrightarrow> 2 \<le> int (queueLen e') - int (index e')) \<and>
   (wf_queue e \<longrightarrow> (r \<longleftrightarrow> 2 \<le> length (drop (index e') (queue e'))))"
proof -
  assume a: "Entry_resume e = (r, e')"
  from a have e': "e' = Entry_read ((emit e EvResume)\<lparr>paused := False\<rparr>)"
    and r: "r \<longleftrightarrow> int (queueLen e') - int (index e') > 1"
    by (auto simp: Entry_resume_def Let_def)
  have p: "\<not> paused e'" by (simp add: e')
  have "wf_queue e'" if "wf_queue e"
    unfolding e' using that by (intro Entry_read_wf) simp
  then have "wf_queue e \<longrightarrow> (r \<longleftrightarrow> 2 \<le> length (drop (index e') (queue e')))"
    using r by (auto simp: wf_queue_def)
  with p e' r show ?thesis by auto
qed

theorem Entry_resume_result_witness:
  "Entry_resume ((Entry_init [] None)\<lparr>paused := True, queue := [[1], [2], [3]], queueLen := 3\<rparr>) =
     (True, Entry_read ((emit ((Entry_init [] None)\<lparr>paused := True, queue := [[1], [2], [3]], queueLen := 3\<rparr>) EvResume)\<lparr>paused := False\<rparr>)) \<and>
   wf_queue ((Entry_init [] None)\<lparr>paused := True, queue := [[1], [2], [3]], queueLen := 3\<rparr>) \<and>
   \<not> paused (Entry_read ((emit ((Entry_init [] None)\<lparr>paused := True, queue := [[1], [2], [3]], queueLen := 3\<rparr>) EvResume)\<lparr>paused := False\<rparr>)) \<and>
   2 \<le> length (drop (index (Entry_read ((emit ((Entry_init [] None)\<lparr>paused := True, queue := [[1], [2], [3]], queueLen := 3\<rparr>) EvResume)\<lparr>paused := False\<rparr>)))
                     (queue (Entry_read ((emit ((Entry_init [] None)\<lparr>paused := True, queue := [[1], [2], [3]], queueLen := 3\<rparr>) EvResume)\<lparr>paused := False\<rparr>))))"
proof -
  let ?e = "(Entry_init [] None)\<lparr>paused := True, queue := [[1], [2], [3]], queueLen := 3\<rparr>"
  have a: "Entry_resume ?e = (True, Entry_read ((emit ?e EvResume)\<lparr>paused := False\<rparr>))"
    by (simp add: Entry_resume_def Let_def Entry_read_def emit_def Entry_init_def)
  have w: "wf_queue ?e" by (simp add: wf_queue_def Entry_init_def)
  from Entry_resume_result [OF a] a w show ?thesis by simp
qed

text \<open>
  C10. For an entry constructed with a merged size \<open>n \<ge> 0\<close>, with or without an
  error listener and whatever \<open>_maxQueueLen\<close> is set to, after any sequence of
  \<open>write\<close>, \<open>end\<close>, \<open>pause\<close> and \<open>resume\<close> calls the remaining-bytes counter is
  a number \<open>r\<close> with \<open>0 \<le> r \<le> n\<close>, and the bytes delivered plus the bytes
  queued are \<open>n - r\<close>: never more than \<open>n\<close>.
\<close>

theorem remaining_never_negative:
  "Entry tf types hdr ext glo = Inr e \<Longrightarrow> props e ''size'' = Some (JNum n) \<Longrightarrow> 0 \<le> n \<Longrightarrow>
   \<exists>r. remaining (run_calls (e\<lparr>errorListener := l, maxQueueLen := mq\<rparr>) cs) = Some (JNum r) \<and>
       0 \<le> r \<and> r \<le> n \<and>
       int (delivered_bytes (run_calls (e\<lparr>errorListener := l, maxQueueLen := mq\<rparr>) cs)) +
       int (pending_bytes (run_calls (e\<lparr>errorListener := l, maxQueueLen := mq\<rparr>) cs)) = n - r"
proof -
  assume a: "Entry tf types hdr ext glo = Inr e" and s: "props e ''size'' = Some (JNum n)"
    and n: "0 \<le> n"
  from Entry_Inr [OF a] have e: "e = Entry_setProps tf types (Entry_init hdr ext)" by simp
  have r: "remaining e = Some (JNum n)"
    using s unfolding e setProps_fields .
  have q: "queue e = []" "index e = 0" "queueLen e = 0" "events e = []"
    unfolding e setProps_fields by (simp_all add: Entry_init_fields)
  have "stream_inv n (e\<lparr>errorListener := l, maxQueueLen := mq\<rparr>)"
    using r q n by (simp add: stream_inv_def wf_queue_def delivered_bytes_def pending_bytes_def)
  from stream_inv_calls [OF this, of cs] show ?thesis
    by (auto simp: stream_inv_def)
qed

theorem remaining_never_negative_witness:
  "Entry tar_fields tar_types [(''size'', Some (JNum 3))] None None =
     Inr (Entry_setProps tar_fields tar_types (Entry_init [(''size'', Some (JNum 3))] None)) \<and>
   props (Entry_setProps tar_fields tar_types (Entry_init [(''size'', Some (JNum 3))] None)) ''size'' =
     Some (JNum 3) \<and>
   (0::int) \<le> 3 \<and>
   (\<exists>r. remaining (run_calls
           ((Entry_setProps tar_fields tar_types (Entry_init [(''size'', Some (JNum 3))] None))
              \<lparr>errorListener := True, maxQueueLen := Some 4\<rparr>)
           [Write [1, 2, 3, 4, 5], Write [6], End None]) = Some (JNum r) \<and> 0 \<le> r \<and> r \<le> 3 \<and>
        int (delivered_bytes (run_calls
           ((Entry_setProps tar_fields tar_types (Entry_init [(''size'', Some (JNum 3))] None))
              \<lparr>errorListener := True, maxQueueLen := Some 4\<rparr>)
           [Write [1, 2, 3, 4, 5], Write [6], End None])) +
        int (pending_bytes (run_calls
           ((Entry_setProps tar_fields tar_types (Entry_init [(''size'', Some (JNum 3))] None))
              \<lparr>errorListener := True, maxQueueLen := Some 4\<rparr>)
           [Write [1, 2, 3, 4, 5], Write [6], End None])) = 3 - r)"
proof -
  have a: "Entry tar_fields tar_types [(''size'', Some (JNum 3))] None None =
     Inr (Entry_setProps tar_fields tar_types (Entry_init [(''size'', Some (JNum 3))] None))"
    by (simp add: Entry_def obj_keys_def)
  have s: "props (Entry_setProps tar_fields tar_types (Entry_init [(''size'', Some (JNum 3))] None)) ''size'' =
     Some (JNum 3)"
    by (simp add: setProps_props Entry_init_fields tar_fields_def merged_def obj_get_def)
  have n: "(0::int) \<le> 3" by simp
  from remaining_never_negative [OF a s n, where l = True and mq = "Some 4"
      and cs = "[Write [1, 2, 3, 4, 5], Write [6], End None]"] a s n
  show ?thesis by - (intro conjI; assumption)
qed


end
